theory Spec2Isabelle
  imports Main "HOL-Library.Word"
begin

section \<open>Faults and raw buffers\<close>

text \<open>
  The C++ of \<^verbatim>\<open>adapt_sgraph.hpp\<close> works on \<^verbatim>\<open>malloc\<close>ed buffers and
  \<^verbatim>\<open>std::vector\<close>s without checking indices. In the model a buffer is a list of
  cells, a cell is \<open>None\<close> until it has been written, and every access the C++ standard
  leaves undefined is a value of type \<open>fault\<close>. A loop that would not end is the fault
  \<open>Diverges\<close>.
\<close>

datatype fault = OutOfBounds | UninitRead | AssertFailed | Diverges

definition fbind :: "'e + 'a \<Rightarrow> ('a \<Rightarrow> 'e + 'b) \<Rightarrow> 'e + 'b" where
  "fbind x f = (case x of Inl e \<Rightarrow> Inl e | Inr a \<Rightarrow> f a)"

definition rd :: "'a option list \<Rightarrow> nat \<Rightarrow> fault + 'a" where
  "rd buf i =
     (if i < length buf
      then (case buf ! i of Some x \<Rightarrow> Inr x | None \<Rightarrow> Inl UninitRead)
      else Inl OutOfBounds)"

definition wr :: "'a option list \<Rightarrow> nat \<Rightarrow> 'a \<Rightarrow> fault + 'a option list" where
  "wr buf i x = (if i < length buf then Inr (buf[i := Some x]) else Inl OutOfBounds)"

text \<open>
  The one read the source tolerates out of range (the comment in \<^verbatim>\<open>elem\<close>: "This can
  (often will) read beyond the bounds of sparse. This is totally okay."): the read
  yields the cell when it is allocated and written, and some value \<open>junk\<close> otherwise.
\<close>

definition rd_junk :: "'a \<Rightarrow> 'a option list \<Rightarrow> nat \<Rightarrow> 'a" where
  "rd_junk junk buf i = (case rd buf i of Inr x \<Rightarrow> x | Inl _ \<Rightarrow> junk)"

text \<open>\<^verbatim>\<open>std::vector::operator[]\<close>, undefined out of range.\<close>

definition vec_at :: "'a list \<Rightarrow> nat \<Rightarrow> fault + 'a" where
  "vec_at xs i = (if i < length xs then Inr (xs ! i) else Inl OutOfBounds)"

text \<open>\<^verbatim>\<open>realloc\<close>: the old cells are kept, the new ones are not initialised.\<close>

definition realloc :: "'a option list \<Rightarrow> nat \<Rightarrow> 'a option list" where
  "realloc buf n = take n buf @ replicate (n - length buf) None"

text \<open>\<^verbatim>\<open>while (a < b) a *= 2;\<close> on \<^verbatim>\<open>size_t\<close>: with \<open>a = 0\<close> the loop never ends.\<close>

function double_until :: "nat \<Rightarrow> nat \<Rightarrow> fault + nat" where
  "double_until a b =
     (if a < b then (if a = 0 then Inl Diverges else double_until (2 * a) b) else Inr a)"
  by pat_completeness auto
termination
  by (relation "measure (\<lambda>(a, b). b - a)") auto

declare double_until.simps [simp del]

section \<open>AdaptSMap\<close>

type_synonym key_t = "16 word"
type_synonym val_t = nat

record elt_t =
  key :: key_t
  val :: val_t

record AdaptSMap =
  sz :: nat
  dense_maxsz :: nat
  sparse_ub :: nat
  dense :: "elt_t option list"
  sparse :: "key_t option list option"

text \<open>The constructor: \<^verbatim>\<open>sparse_threshold = 8\<close> cells, no sparse table.\<close>

definition AdaptSMap_empty :: AdaptSMap where
  "AdaptSMap_empty =
     \<lparr>sz = 0, dense_maxsz = 8, sparse_ub = 10, dense = replicate 8 None, sparse = None\<rparr>"

definition size_smap :: "AdaptSMap \<Rightarrow> nat" where
  "size_smap m = sz m"

text \<open>\<^verbatim>\<open>elts()\<close> and \<^verbatim>\<open>keys()\<close>: the cells \<open>[0, sz)\<close> of \<open>dense\<close>, read in order.\<close>

fun rd_range :: "'a option list \<Rightarrow> nat \<Rightarrow> nat \<Rightarrow> fault + 'a list" where
  "rd_range buf i 0 = Inr []"
| "rd_range buf i (Suc n) =
     fbind (rd buf i) (\<lambda>x. fbind (rd_range buf (Suc i) n) (\<lambda>xs. Inr (x # xs)))"

definition elts :: "AdaptSMap \<Rightarrow> fault + elt_t list" where
  "elts m = rd_range (dense m) 0 (sz m)"

definition keys :: "AdaptSMap \<Rightarrow> fault + key_t list" where
  "keys m = fbind (elts m) (\<lambda>es. Inr (map key es))"

text \<open>The linear scans of dense mode; they stop at the first match.\<close>

fun elem_dense :: "elt_t option list \<Rightarrow> key_t \<Rightarrow> nat \<Rightarrow> nat \<Rightarrow> fault + bool" where
  "elem_dense buf k i 0 = Inr False"
| "elem_dense buf k i (Suc n) =
     fbind (rd buf i) (\<lambda>e. if key e = k then Inr True else elem_dense buf k (Suc i) n)"

fun lookup_dense :: "elt_t option list \<Rightarrow> key_t \<Rightarrow> nat \<Rightarrow> nat \<Rightarrow> fault + val_t option" where
  "lookup_dense buf k i 0 = Inr None"
| "lookup_dense buf k i (Suc n) =
     fbind (rd buf i)
       (\<lambda>e. if key e = k then Inr (Some (val e)) else lookup_dense buf k (Suc i) n)"

text \<open>
  \<^verbatim>\<open>elem\<close>. In sparse mode \<^verbatim>\<open>int idx = sparse[k]\<close> is the tolerated read; then
  \<^verbatim>\<open>(idx < sz) && dense[idx].key == k\<close>, the second read only when the first test
  holds.
\<close>

definition elem :: "key_t \<Rightarrow> AdaptSMap \<Rightarrow> key_t \<Rightarrow> fault + bool" where
  "elem junk m k =
     (case sparse m of
        Some tab \<Rightarrow>
          (let idx = unat (rd_junk junk tab (unat k)) in
           if idx < sz m then fbind (rd (dense m) idx) (\<lambda>e. Inr (key e = k))
           else Inr False)
      | None \<Rightarrow> elem_dense (dense m) k 0 (sz m))"

text \<open>
  \<^verbatim>\<open>lookup\<close>: the result \<open>Some v\<close> is the return value \<^verbatim>\<open>true\<close> with \<^verbatim>\<open>*v_out = v\<close>,
  \<open>None\<close> is \<^verbatim>\<open>false\<close> with \<^verbatim>\<open>*v_out\<close> untouched.
\<close>

definition lookup :: "key_t \<Rightarrow> AdaptSMap \<Rightarrow> key_t \<Rightarrow> fault + val_t option" where
  "lookup junk m k =
     (case sparse m of
        Some tab \<Rightarrow>
          (let idx = unat (rd_junk junk tab (unat k)) in
           if idx < sz m
           then fbind (rd (dense m) idx)
                  (\<lambda>e. if key e = k then Inr (Some (val e)) else Inr None)
           else Inr None)
      | None \<Rightarrow> lookup_dense (dense m) k 0 (sz m))"

text \<open>
  \<^verbatim>\<open>remove\<close> (precondition of the source: \<open>k\<close> is in the map). \<^verbatim>\<open>--sz\<close> on
  \<open>sz = 0\<close> wraps and \<^verbatim>\<open>dense[sz]\<close> is then out of range. In dense mode
  \<^verbatim>\<open>while (e->key != k) ++e;\<close> walks the buffer with no bound.
\<close>

fun find_key :: "elt_t option list \<Rightarrow> key_t \<Rightarrow> nat \<Rightarrow> fault + nat" where
  "find_key [] k i = Inl OutOfBounds"
| "find_key (c # cs) k i =
     (case c of
        None \<Rightarrow> Inl UninitRead
      | Some e \<Rightarrow> if key e \<noteq> k then find_key cs k (Suc i) else Inr i)"

definition remove :: "key_t \<Rightarrow> AdaptSMap \<Rightarrow> fault + AdaptSMap" where
  "remove k m =
     (if sz m = 0 then Inl OutOfBounds
      else
        let n = sz m - 1 in
        fbind (rd (dense m) n) (\<lambda>repl.
          case sparse m of
            Some tab \<Rightarrow>
              fbind (rd tab (unat k)) (\<lambda>i.
              fbind (wr (dense m) (unat i) repl) (\<lambda>d'.
              fbind (wr tab (unat (key repl)) i) (\<lambda>tab'.
                Inr (m\<lparr>sz := n, dense := d', sparse := Some tab'\<rparr>))))
          | None \<Rightarrow>
              fbind (find_key (dense m) k 0) (\<lambda>i.
              fbind (wr (dense m) i repl) (\<lambda>d'.
                Inr (m\<lparr>sz := n, dense := d'\<rparr>)))))"

text \<open>
  \<^verbatim>\<open>key_t idx = 0; for (key_t k : keys()) sparse[k] = idx++;\<close> The counter is a
  \<^verbatim>\<open>uint16_t\<close> and wraps.
\<close>

fun fill_sparse :: "key_t option list \<Rightarrow> key_t list \<Rightarrow> key_t \<Rightarrow> fault + key_t option list" where
  "fill_sparse tab [] idx = Inr tab"
| "fill_sparse tab (k # ks) idx =
     fbind (wr tab (unat k) idx) (\<lambda>tab'. fill_sparse tab' ks (idx + 1))"

text \<open>
  \<^verbatim>\<open>growDense\<close>: doubles the capacity; on the first growth it also builds the sparse
  table, of \<^verbatim>\<open>key_max + 1\<close> cells. Allocation is taken to succeed.
\<close>

definition growDense :: "nat \<Rightarrow> AdaptSMap \<Rightarrow> fault + AdaptSMap" where
  "growDense new_max m =
     (if \<not> dense_maxsz m < new_max then Inl AssertFailed
      else
        fbind (double_until (dense_maxsz m) new_max) (\<lambda>cap.
          let m1 = m\<lparr>dense_maxsz := cap, dense := realloc (dense m) cap\<rparr> in
          case sparse m1 of
            Some _ \<Rightarrow> Inr m1
          | None \<Rightarrow>
              fbind (keys m1) (\<lambda>ks.
                let key_max = fold (\<lambda>k acc. max acc k) ks 0;
                    ub = unat key_max + 1
                in fbind (fill_sparse (replicate ub None) ks 0) (\<lambda>tab.
                     Inr (m1\<lparr>sparse_ub := ub, sparse := Some tab\<rparr>)))))"

definition growSparse :: "nat \<Rightarrow> AdaptSMap \<Rightarrow> fault + AdaptSMap" where
  "growSparse new_ub m =
     fbind (double_until (sparse_ub m) new_ub) (\<lambda>ub.
     fbind (keys m) (\<lambda>ks.
     fbind (fill_sparse (replicate ub None) ks 0) (\<lambda>tab.
       Inr (m\<lparr>sparse_ub := ub, sparse := Some tab\<rparr>))))"

text \<open>
  \<^verbatim>\<open>add\<close> (precondition of the source: \<open>k\<close> is not in the map). \<open>add_index\<close> is its
  block \<^verbatim>\<open>if (sparse) { if (sparse_ub <= k) growSparse(k + 1); sparse[k] = sz; }\<close>,
  where the assignment converts the \<^verbatim>\<open>size_t\<close> to \<^verbatim>\<open>uint16_t\<close>.
\<close>

definition add_index :: "key_t \<Rightarrow> AdaptSMap \<Rightarrow> fault + AdaptSMap" where
  "add_index k m =
     (case sparse m of
        None \<Rightarrow> Inr m
      | Some _ \<Rightarrow>
          fbind (if sparse_ub m \<le> unat k then growSparse (unat k + 1) m else Inr m) (\<lambda>m3.
            case sparse m3 of
              None \<Rightarrow> Inl OutOfBounds
            | Some tab \<Rightarrow>
                fbind (wr tab (unat k) (of_nat (sz m3))) (\<lambda>tab'. Inr (m3\<lparr>sparse := Some tab'\<rparr>))))"

definition add :: "key_t \<Rightarrow> val_t \<Rightarrow> AdaptSMap \<Rightarrow> fault + AdaptSMap" where
  "add k v m =
     fbind (if dense_maxsz m \<le> sz m then growDense (sz m + 1) m else Inr m) (\<lambda>m1.
     fbind (wr (dense m1) (sz m1) \<lparr>key = k, val = v\<rparr>) (\<lambda>d1.
     fbind (add_index k (m1\<lparr>dense := d1\<rparr>)) (\<lambda>m4.
       Inr (m4\<lparr>sz := sz m4 + 1\<rparr>))))"

definition clear :: "AdaptSMap \<Rightarrow> AdaptSMap" where
  "clear m = m\<lparr>sz := 0\<rparr>"


subsection \<open>What an AdaptSMap holds\<close>

text \<open>
  The live elements are the cells \<open>[0, sz)\<close> of \<open>dense\<close>; the map they stand for is
  \<open>smap_abs\<close>. \<open>smap_inv\<close> is the representation invariant: capacity and size agree
  with the buffer, live cells are written, keys are distinct, dense mode has the
  initial capacity of 8, and in sparse mode the table points at each live cell.
\<close>

definition live :: "AdaptSMap \<Rightarrow> elt_t list" where
  "live m = map the (take (sz m) (dense m))"

definition smap_abs :: "AdaptSMap \<Rightarrow> key_t \<rightharpoonup> val_t" where
  "smap_abs m = map_of (map (\<lambda>e. (key e, val e)) (live m))"

definition sparse_inv :: "AdaptSMap \<Rightarrow> bool" where
  "sparse_inv m =
     (case sparse m of
        None \<Rightarrow> True
      | Some tab \<Rightarrow>
          (\<forall>i < sz m. unat (key (live m ! i)) < length tab
                    \<and> tab ! unat (key (live m ! i)) = Some (of_nat i)))"

definition smap_inv :: "AdaptSMap \<Rightarrow> bool" where
  "smap_inv m \<longleftrightarrow>
     length (dense m) = dense_maxsz m \<and> 0 < dense_maxsz m \<and> sz m \<le> dense_maxsz m
     \<and> (\<forall>i < sz m. dense m ! i \<noteq> None)
     \<and> distinct (map key (live m))
     \<and> (case sparse m of
          None \<Rightarrow> dense_maxsz m = 8
        | Some tab \<Rightarrow> length tab = sparse_ub m \<and> 0 < sparse_ub m)
     \<and> sparse_inv m"

text \<open>
  The maps a program can build: from the constructor by \<^verbatim>\<open>add\<close> of an absent key,
  \<^verbatim>\<open>remove\<close> of a present key and \<^verbatim>\<open>clear\<close>. The second argument records what was
  added and not removed since, with the value of the latest \<^verbatim>\<open>add\<close>.
\<close>

inductive smap_built :: "AdaptSMap \<Rightarrow> (key_t \<rightharpoonup> val_t) \<Rightarrow> bool" where
  built_empty: "smap_built AdaptSMap_empty Map.empty"
| built_add: "smap_built m A \<Longrightarrow> A k = None \<Longrightarrow> add k v m = Inr m' \<Longrightarrow> smap_built m' (A(k \<mapsto> v))"
| built_remove: "smap_built m A \<Longrightarrow> A k \<noteq> None \<Longrightarrow> remove k m = Inr m' \<Longrightarrow> smap_built m' (A(k := None))"
| built_clear: "smap_built m A \<Longrightarrow> smap_built (clear m) Map.empty"

text \<open>Whether the tolerated read of \<^verbatim>\<open>sparse[k]\<close> is a read of an allocated, written cell.\<close>

definition sparse_read_defined :: "AdaptSMap \<Rightarrow> key_t \<Rightarrow> bool" where
  "sparse_read_defined m k =
     (case sparse m of
        None \<Rightarrow> False
      | Some tab \<Rightarrow> unat k < length tab \<and> tab ! unat k \<noteq> None)"

text \<open>
  A run of \<^verbatim>\<open>add\<close> calls, and the map it gives from the constructor for the keys
  0 to 8 with values 100 to 108: the ninth \<^verbatim>\<open>add\<close> grows the dense buffer to 16
  cells and builds a sparse table of 8 cells, which \<^verbatim>\<open>growSparse(9)\<close> replaces by
  one of 16.
\<close>

fun add_all :: "(key_t \<times> val_t) list \<Rightarrow> AdaptSMap \<Rightarrow> fault + AdaptSMap" where
  "add_all [] m = Inr m"
| "add_all ((k, v) # kvs) m = fbind (add k v m) (add_all kvs)"

definition nine_kvs :: "(key_t \<times> val_t) list" where
  "nine_kvs = [(0, 100), (1, 101), (2, 102), (3, 103), (4, 104), (5, 105), (6, 106),
               (7, 107), (8, 108)]"

definition nine_smap :: AdaptSMap where
  "nine_smap =
     \<lparr>sz = 9, dense_maxsz = 16, sparse_ub = 16,
      dense = [Some \<lparr>key = 0, val = 100\<rparr>, Some \<lparr>key = 1, val = 101\<rparr>,
               Some \<lparr>key = 2, val = 102\<rparr>, Some \<lparr>key = 3, val = 103\<rparr>,
               Some \<lparr>key = 4, val = 104\<rparr>, Some \<lparr>key = 5, val = 105\<rparr>,
               Some \<lparr>key = 6, val = 106\<rparr>, Some \<lparr>key = 7, val = 107\<rparr>,
               Some \<lparr>key = 8, val = 108\<rparr>, None, None, None, None, None, None, None],
      sparse = Some [Some 0, Some 1, Some 2, Some 3, Some 4, Some 5, Some 6, Some 7, Some 8,
                     None, None, None, None, None, None, None]\<rparr>"

definition nine_abs :: "key_t \<rightharpoonup> val_t" where
  "nine_abs = map_of nine_kvs"

text \<open>The same map after \<^verbatim>\<open>remove(3)\<close>: the last element takes the place of key 3.\<close>

definition eight_smap :: AdaptSMap where
  "eight_smap =
     \<lparr>sz = 8, dense_maxsz = 16, sparse_ub = 16,
      dense = [Some \<lparr>key = 0, val = 100\<rparr>, Some \<lparr>key = 1, val = 101\<rparr>,
               Some \<lparr>key = 2, val = 102\<rparr>, Some \<lparr>key = 8, val = 108\<rparr>,
               Some \<lparr>key = 4, val = 104\<rparr>, Some \<lparr>key = 5, val = 105\<rparr>,
               Some \<lparr>key = 6, val = 106\<rparr>, Some \<lparr>key = 7, val = 107\<rparr>,
               Some \<lparr>key = 8, val = 108\<rparr>, None, None, None, None, None, None, None],
      sparse = Some [Some 0, Some 1, Some 2, Some 3, Some 4, Some 5, Some 6, Some 7, Some 3,
                     None, None, None, None, None, None, None]\<rparr>"

section \<open>AdaptGraph\<close>

text \<open>
  Vertex ids are \<^verbatim>\<open>unsigned int\<close>; the per-vertex maps take \<^verbatim>\<open>uint16_t\<close> keys, so
  every \<^verbatim>\<open>_succs[s].add(d, idx)\<close>, \<^verbatim>\<open>elem(d)\<close>, \<^verbatim>\<open>lookup(d, ...)\<close> and
  \<^verbatim>\<open>remove(v)\<close> converts the vertex to 16 bits (\<open>key_of\<close>). The weight type
  \<^verbatim>\<open>safe_i64\<close> is any linear order \<open>'w\<close>.
\<close>

type_synonym vert_id = nat

definition key_of :: "vert_id \<Rightarrow> key_t" where
  "key_of v = of_nat v"

record 'w AdaptGraph =
  preds :: "AdaptSMap list"
  succs :: "AdaptSMap list"
  ws :: "'w list"
  edge_count :: int
  is_free :: "bool list"
  free_id :: "vert_id list"
  free_widx :: "nat list"

definition AdaptGraph_empty :: "'w AdaptGraph" where
  "AdaptGraph_empty =
     \<lparr>preds = [], succs = [], ws = [], edge_count = 0, is_free = [], free_id = [], free_widx = []\<rparr>"

definition size_graph :: "'w AdaptGraph \<Rightarrow> nat" where
  "size_graph g = length (succs g)"


text \<open>\<^verbatim>\<open>new_vertex\<close>; \<^verbatim>\<open>v = _succs.size()\<close> converts a \<^verbatim>\<open>size_t\<close> to \<^verbatim>\<open>unsigned int\<close>.\<close>

definition new_vertex :: "'w AdaptGraph \<Rightarrow> fault + vert_id \<times> 'w AdaptGraph" where
  "new_vertex g =
     (if length (free_id g) > 0 then
        let v = last (free_id g) in
        if \<not> v < length (succs g) then Inl AssertFailed
        else if \<not> v < length (is_free g) then Inl OutOfBounds
        else Inr (v, g\<lparr>free_id := butlast (free_id g), is_free := (is_free g)[v := False]\<rparr>)
      else
        Inr (unat (of_nat (length (succs g)) :: 32 word),
             g\<lparr>is_free := is_free g @ [False],
               succs := succs g @ [AdaptSMap_empty],
               preds := preds g @ [AdaptSMap_empty]\<rparr>))"

text \<open>
  The two loops of \<^verbatim>\<open>forget\<close>. The first walks \<^verbatim>\<open>_succs[v].elts()\<close> and changes only
  \<^verbatim>\<open>free_widx\<close> and \<^verbatim>\<open>_preds\<close>; the second walks \<^verbatim>\<open>_preds[v].keys()\<close> and changes
  only \<^verbatim>\<open>_succs\<close>, so each walks a range no iteration of it writes.
\<close>

fun forget_succs :: "vert_id \<Rightarrow> elt_t list \<Rightarrow> 'w AdaptGraph \<Rightarrow> fault + 'w AdaptGraph" where
  "forget_succs v [] g = Inr g"
| "forget_succs v (e # es) g =
     (let g1 = g\<lparr>free_widx := free_widx g @ [val e]\<rparr> in
      fbind (vec_at (preds g1) (unat (key e))) (\<lambda>p.
      fbind (remove (key_of v) p) (\<lambda>p'.
        forget_succs v es (g1\<lparr>preds := (preds g1)[unat (key e) := p']\<rparr>))))"

fun forget_preds :: "vert_id \<Rightarrow> key_t list \<Rightarrow> 'w AdaptGraph \<Rightarrow> fault + 'w AdaptGraph" where
  "forget_preds v [] g = Inr g"
| "forget_preds v (k # ks) g =
     fbind (vec_at (succs g) (unat k)) (\<lambda>s.
     fbind (remove (key_of v) s) (\<lambda>s'.
       forget_preds v ks (g\<lparr>succs := (succs g)[unat k := s']\<rparr>)))"

definition forget :: "vert_id \<Rightarrow> 'w AdaptGraph \<Rightarrow> fault + 'w AdaptGraph" where
  "forget v g =
     fbind (vec_at (is_free g) v) (\<lambda>fr.
       if fr then Inr g
       else
         fbind (vec_at (succs g) v) (\<lambda>sv.
         fbind (elts sv) (\<lambda>es.
         fbind (forget_succs v es g) (\<lambda>g1.
         fbind (vec_at (succs g1) v) (\<lambda>sv1.
         let g2 = g1\<lparr>edge_count := edge_count g1 - int (size_smap sv1),
                     succs := (succs g1)[v := clear sv1]\<rparr> in
         fbind (vec_at (preds g2) v) (\<lambda>pv.
         fbind (keys pv) (\<lambda>ks.
         fbind (forget_preds v ks g2) (\<lambda>g3.
         fbind (vec_at (preds g3) v) (\<lambda>pv3.
         let g4 = g3\<lparr>edge_count := edge_count g3 - int (size_smap pv3),
                     preds := (preds g3)[v := clear pv3]\<rparr> in
         Inr (g4\<lparr>is_free := (is_free g4)[v := True], free_id := free_id g4 @ [v]\<rparr>))))))))))"

definition elem_graph :: "key_t \<Rightarrow> 'w AdaptGraph \<Rightarrow> vert_id \<Rightarrow> vert_id \<Rightarrow> fault + bool" where
  "elem_graph junk g s d = fbind (vec_at (succs g) s) (\<lambda>m. elem junk m (key_of d))"

text \<open>The test \<^verbatim>\<open>_preds[d].elem(s)\<close>, the predecessor-side counterpart of \<^verbatim>\<open>elem(s, d)\<close>.\<close>

definition pred_elem :: "key_t \<Rightarrow> 'w AdaptGraph \<Rightarrow> vert_id \<Rightarrow> vert_id \<Rightarrow> fault + bool" where
  "pred_elem junk g d s = fbind (vec_at (preds g) d) (\<lambda>m. elem junk m (key_of s))"

text \<open>
  \<^verbatim>\<open>edge_val\<close>: \<^verbatim>\<open>size_t idx{}; _succs[s].lookup(d, &idx); return _ws[idx];\<close> When the
  lookup finds nothing, \<open>idx\<close> is still 0.
\<close>

definition edge_val :: "key_t \<Rightarrow> 'w AdaptGraph \<Rightarrow> vert_id \<Rightarrow> vert_id \<Rightarrow> fault + 'w" where
  "edge_val junk g s d =
     fbind (vec_at (succs g) s) (\<lambda>m.
     fbind (lookup junk m (key_of d)) (\<lambda>r.
       vec_at (ws g) (case r of Some idx \<Rightarrow> idx | None \<Rightarrow> 0)))"

text \<open>\<^verbatim>\<open>add_edge\<close>: a weight slot from \<^verbatim>\<open>free_widx\<close> if there is one, a new one otherwise.\<close>

definition alloc_widx :: "'w \<Rightarrow> 'w AdaptGraph \<Rightarrow> fault + nat \<times> 'w AdaptGraph" where
  "alloc_widx w g =
     (if length (free_widx g) > 0 then
        let idx = last (free_widx g) in
        if idx < length (ws g)
        then Inr (idx, g\<lparr>free_widx := butlast (free_widx g), ws := (ws g)[idx := w]\<rparr>)
        else Inl OutOfBounds
      else Inr (length (ws g), g\<lparr>ws := ws g @ [w]\<rparr>))"

definition add_edge :: "vert_id \<Rightarrow> 'w \<Rightarrow> vert_id \<Rightarrow> 'w AdaptGraph \<Rightarrow> fault + 'w AdaptGraph" where
  "add_edge s w d g =
     fbind (alloc_widx w g) (\<lambda>(idx, g1).
     fbind (vec_at (succs g1) s) (\<lambda>m.
     fbind (add (key_of d) idx m) (\<lambda>m'.
     let g2 = g1\<lparr>succs := (succs g1)[s := m']\<rparr> in
     fbind (vec_at (preds g2) d) (\<lambda>p.
     fbind (add (key_of s) idx p) (\<lambda>p'.
       Inr (g2\<lparr>preds := (preds g2)[d := p'], edge_count := edge_count g2 + 1\<rparr>))))))"

text \<open>\<^verbatim>\<open>std::min(_ws[idx], w)\<close> is \<open>min\<close> of the linear order.\<close>

definition update_edge ::
  "key_t \<Rightarrow> vert_id \<Rightarrow> 'w::linorder \<Rightarrow> vert_id \<Rightarrow> 'w AdaptGraph \<Rightarrow> fault + 'w AdaptGraph" where
  "update_edge junk s w d g =
     fbind (vec_at (succs g) s) (\<lambda>m.
     fbind (lookup junk m (key_of d)) (\<lambda>r.
       case r of
         Some idx \<Rightarrow>
           if idx < length (ws g)
           then Inr (g\<lparr>ws := (ws g)[idx := min (ws g ! idx) w]\<rparr>)
           else Inl OutOfBounds
       | None \<Rightarrow> add_edge s w d g))"

definition set_edge ::
  "key_t \<Rightarrow> vert_id \<Rightarrow> 'w \<Rightarrow> vert_id \<Rightarrow> 'w AdaptGraph \<Rightarrow> fault + 'w AdaptGraph" where
  "set_edge junk s w d g =
     fbind (vec_at (succs g) s) (\<lambda>m.
     fbind (lookup junk m (key_of d)) (\<lambda>r.
       case r of
         Some idx \<Rightarrow>
           if idx < length (ws g) then Inr (g\<lparr>ws := (ws g)[idx := w]\<rparr>) else Inl OutOfBounds
       | None \<Rightarrow> add_edge s w d g))"

text \<open>
  The graphs a program can build while it has at most \<open>N\<close> vertices. The third argument
  records the edges added and not forgotten since, with their weights.
\<close>

definition forget_edges :: "vert_id \<Rightarrow> (vert_id \<times> vert_id \<rightharpoonup> 'w) \<Rightarrow> (vert_id \<times> vert_id \<rightharpoonup> 'w)" where
  "forget_edges v E = (\<lambda>(s, d). if s = v \<or> d = v then None else E (s, d))"

inductive graph_built :: "nat \<Rightarrow> 'w::linorder AdaptGraph \<Rightarrow> (vert_id \<times> vert_id \<rightharpoonup> 'w) \<Rightarrow> bool"
  for N :: nat where
  g_empty: "graph_built N AdaptGraph_empty Map.empty"
| g_new_vertex:
    "graph_built N g E \<Longrightarrow> free_id g \<noteq> [] \<or> size_graph g < N \<Longrightarrow> new_vertex g = Inr (v, g')
       \<Longrightarrow> graph_built N g' E"
| g_add_edge:
    "graph_built N g E \<Longrightarrow> s < size_graph g \<Longrightarrow> d < size_graph g \<Longrightarrow> E (s, d) = None
       \<Longrightarrow> add_edge s w d g = Inr g' \<Longrightarrow> graph_built N g' (E((s, d) \<mapsto> w))"
| g_update_edge:
    "graph_built N g E \<Longrightarrow> s < size_graph g \<Longrightarrow> d < size_graph g
       \<Longrightarrow> update_edge junk s w d g = Inr g'
       \<Longrightarrow> graph_built N g' (E((s, d) \<mapsto> (case E (s, d) of None \<Rightarrow> w | Some w0 \<Rightarrow> min w0 w)))"
| g_set_edge:
    "graph_built N g E \<Longrightarrow> s < size_graph g \<Longrightarrow> d < size_graph g
       \<Longrightarrow> set_edge junk s w d g = Inr g' \<Longrightarrow> graph_built N g' (E((s, d) \<mapsto> w))"
| g_forget:
    "graph_built N g E \<Longrightarrow> v < size_graph g \<Longrightarrow> forget v g = Inr g'
       \<Longrightarrow> graph_built N g' (if is_free g ! v then E else forget_edges v E)"


text \<open>
  Three small graphs over integer weights: two fresh vertices; the same with the single
  edge \<open>1 \<rightarrow> 0\<close> of weight 5 (\<^verbatim>\<open>add_edge(1, 5, 0)\<close>); and with the single edge
  \<open>0 \<rightarrow> 1\<close> instead.
\<close>

definition two_vertex_graph :: "int AdaptGraph" where
  "two_vertex_graph =
     \<lparr>preds = [AdaptSMap_empty, AdaptSMap_empty], succs = [AdaptSMap_empty, AdaptSMap_empty],
      ws = [], edge_count = 0, is_free = [False, False], free_id = [], free_widx = []\<rparr>"

definition one_elt :: "key_t \<Rightarrow> val_t \<Rightarrow> AdaptSMap" where
  "one_elt k v =
     \<lparr>sz = 1, dense_maxsz = 8, sparse_ub = 10,
      dense = [Some \<lparr>key = k, val = v\<rparr>, None, None, None, None, None, None, None],
      sparse = None\<rparr>"

definition in_edge_graph :: "int AdaptGraph" where
  "in_edge_graph =
     \<lparr>preds = [one_elt 1 0, AdaptSMap_empty], succs = [AdaptSMap_empty, one_elt 0 0],
      ws = [5], edge_count = 1, is_free = [False, False], free_id = [], free_widx = []\<rparr>"

definition out_edge_graph :: "int AdaptGraph" where
  "out_edge_graph =
     \<lparr>preds = [AdaptSMap_empty, one_elt 0 0], succs = [one_elt 1 0, AdaptSMap_empty],
      ws = [5], edge_count = 1, is_free = [False, False], free_id = [], free_widx = []\<rparr>"

text \<open>
  The churn scenario with the 20 edges going into vertex 0: 21 vertices, the edges
  \<open>i \<rightarrow> 0\<close> for \<open>i\<close> from 1 to 20, \<^verbatim>\<open>forget(0)\<close>, \<^verbatim>\<open>new_vertex()\<close> (which gives 0
  back), and the 20 edges again.
\<close>

fun new_vertices :: "nat \<Rightarrow> 'w AdaptGraph \<Rightarrow> fault + 'w AdaptGraph" where
  "new_vertices 0 g = Inr g"
| "new_vertices (Suc n) g = fbind (new_vertex g) (\<lambda>(v, g'). new_vertices n g')"

fun add_edges :: "(vert_id \<times> 'w \<times> vert_id) list \<Rightarrow> 'w AdaptGraph \<Rightarrow> fault + 'w AdaptGraph" where
  "add_edges [] g = Inr g"
| "add_edges ((s, w, d) # es) g = fbind (add_edge s w d g) (add_edges es)"

definition churn_in :: "fault + int AdaptGraph" where
  "churn_in =
     fbind (new_vertices 21 AdaptGraph_empty) (\<lambda>g0.
     fbind (add_edges (map (\<lambda>i. (i, 7, 0)) [1..<21]) g0) (\<lambda>g1.
     fbind (forget 0 g1) (\<lambda>g2.
     fbind (new_vertex g2) (\<lambda>(v, g3).
       add_edges (map (\<lambda>i. (i, 7, v)) [1..<21]) g3))))"

definition churn_out :: "fault + int AdaptGraph" where
  "churn_out =
     fbind (new_vertices 21 AdaptGraph_empty) (\<lambda>g0.
     fbind (add_edges (map (\<lambda>i. (0, 7, i)) [1..<21]) g0) (\<lambda>g1.
     fbind (forget 0 g1) (\<lambda>g2.
     fbind (new_vertex g2) (\<lambda>(v, g3).
       add_edges (map (\<lambda>i. (v, 7, i)) [1..<21]) g3))))"

text \<open>The graph with the edge \<open>0 \<rightarrow> 1\<close> after \<^verbatim>\<open>forget(0)\<close>.\<close>

definition forgotten_graph :: "int AdaptGraph" where
  "forgotten_graph =
     \<lparr>preds = [AdaptSMap_empty, clear (one_elt 0 0)],
      succs = [clear (one_elt 1 0), AdaptSMap_empty],
      ws = [5], edge_count = 0, is_free = [True, False], free_id = [0], free_widx = [0]\<rparr>"

subsection \<open>What an AdaptGraph holds\<close>

text \<open>
  \<open>sidx g s d\<close> is the weight slot the successor map of \<open>s\<close> gives for \<open>d\<close>, \<open>pidx g d s\<close>
  the one the predecessor map of \<open>d\<close> gives for \<open>s\<close>. \<open>graph_inv g E\<close> relates a graph
  to the edges \<open>E\<close> it stands for: the per-vertex vectors have one length, at most
  \<open>2 ^ 16\<close>; every map satisfies \<open>smap_inv\<close> and holds keys of vertices only;
  successor and predecessor maps agree; an edge of \<open>E\<close> has a slot holding its weight;
  two edges never share a slot; free slots are distinct, within the weight vector and
  used by no edge; free vertex ids are distinct, within range and marked free.
\<close>

definition sidx :: "'w AdaptGraph \<Rightarrow> vert_id \<Rightarrow> vert_id \<Rightarrow> nat option" where
  "sidx g s d = smap_abs (succs g ! s) (key_of d)"

definition pidx :: "'w AdaptGraph \<Rightarrow> vert_id \<Rightarrow> vert_id \<Rightarrow> nat option" where
  "pidx g d s = smap_abs (preds g ! d) (key_of s)"

definition g_shape :: "'w AdaptGraph \<Rightarrow> bool" where
  "g_shape g \<longleftrightarrow>
     length (preds g) = size_graph g \<and> length (is_free g) = size_graph g
     \<and> size_graph g \<le> 65536
     \<and> (\<forall>v < size_graph g. smap_inv (succs g ! v) \<and> smap_inv (preds g ! v))
     \<and> (\<forall>v < size_graph g. \<forall>k. smap_abs (succs g ! v) k \<noteq> None \<longrightarrow> unat k < size_graph g)
     \<and> (\<forall>v < size_graph g. \<forall>k. smap_abs (preds g ! v) k \<noteq> None \<longrightarrow> unat k < size_graph g)"

definition g_sym :: "'w AdaptGraph \<Rightarrow> bool" where
  "g_sym g \<longleftrightarrow> (\<forall>s < size_graph g. \<forall>d < size_graph g. pidx g d s = sidx g s d)"

definition g_weights :: "'w AdaptGraph \<Rightarrow> (vert_id \<times> vert_id \<rightharpoonup> 'w) \<Rightarrow> bool" where
  "g_weights g E \<longleftrightarrow>
     (\<forall>s d. E (s, d) \<noteq> None \<longrightarrow> s < size_graph g \<and> d < size_graph g)
     \<and> (\<forall>s < size_graph g. \<forall>d < size_graph g.
           (E (s, d) = None \<longleftrightarrow> sidx g s d = None)
           \<and> (\<forall>i. sidx g s d = Some i \<longrightarrow> i < length (ws g) \<and> E (s, d) = Some (ws g ! i)))"

definition g_slots :: "'w AdaptGraph \<Rightarrow> bool" where
  "g_slots g \<longleftrightarrow>
     (\<forall>s < size_graph g. \<forall>d < size_graph g. \<forall>s' < size_graph g. \<forall>d' < size_graph g. \<forall>i.
         sidx g s d = Some i \<longrightarrow> sidx g s' d' = Some i \<longrightarrow> s = s' \<and> d = d')
     \<and> distinct (free_widx g)
     \<and> (\<forall>i \<in> set (free_widx g). i < length (ws g)
           \<and> (\<forall>s < size_graph g. \<forall>d < size_graph g. sidx g s d \<noteq> Some i))"

definition g_free :: "'w AdaptGraph \<Rightarrow> bool" where
  "g_free g \<longleftrightarrow>
     distinct (free_id g) \<and> (\<forall>v \<in> set (free_id g). v < size_graph g \<and> is_free g ! v)"

definition graph_inv :: "'w AdaptGraph \<Rightarrow> (vert_id \<times> vert_id \<rightharpoonup> 'w) \<Rightarrow> bool" where
  "graph_inv g E \<longleftrightarrow> g_shape g \<and> g_sym g \<and> g_weights g E \<and> g_slots g \<and> g_free g"

text \<open>
  The graph of \<open>n\<close> fresh vertices; the same after \<^verbatim>\<open>add_edge(0, 5, 0)\<close>, whose only
  edge is \<open>0 \<rightarrow> 0\<close>; and the latter with \<open>2 ^ 16 + 1\<close> vertices.
\<close>

definition fresh_graph :: "nat \<Rightarrow> int AdaptGraph" where
  "fresh_graph n =
     \<lparr>preds = replicate n AdaptSMap_empty, succs = replicate n AdaptSMap_empty,
      ws = [], edge_count = 0, is_free = replicate n False, free_id = [], free_widx = []\<rparr>"

definition loop_graph :: "nat \<Rightarrow> int AdaptGraph" where
  "loop_graph n =
     \<lparr>preds = (replicate n AdaptSMap_empty)[0 := one_elt 0 0],
      succs = (replicate n AdaptSMap_empty)[0 := one_elt 0 0],
      ws = [5], edge_count = 1, is_free = replicate n False, free_id = [], free_widx = []\<rparr>"

definition aliased_graph :: "int AdaptGraph" where
  "aliased_graph = loop_graph 65537"

definition loop_edge :: "vert_id \<times> vert_id \<rightharpoonup> int" where
  "loop_edge = [(0, 0) \<mapsto> 5]"

text \<open>
  \<^verbatim>\<open>update_edge(s, w, d)\<close> followed by \<^verbatim>\<open>edge_val(s, d)\<close>.
\<close>

definition edge_val_after_update ::
  "key_t \<Rightarrow> vert_id \<Rightarrow> 'w::linorder \<Rightarrow> vert_id \<Rightarrow> 'w AdaptGraph \<Rightarrow> fault + 'w" where
  "edge_val_after_update junk s w d g =
     fbind (update_edge junk s w d g) (\<lambda>g'. edge_val junk g' s d)"

section \<open>The ASM Cfg\<close>

text \<open>
  \<^verbatim>\<open>asm_cfg.hpp\<close>. \<^verbatim>\<open>Label\<close> and \<^verbatim>\<open>Instruction\<close> come from \<^verbatim>\<open>asm_syntax.hpp\<close>: they
  are the type parameters \<open>'l\<close> and \<open>'i\<close>, and \<open>mem_load\<close> stands for
  \<^verbatim>\<open>std::holds_alternative<Mem>(ins)\<close> with \<^verbatim>\<open>mem.is_load\<close> (\<open>None\<close>: not a \<^verbatim>\<open>Mem\<close>).
  The \<^verbatim>\<open>std::unordered_map\<close> is a partial function.
\<close>

record ('l, 'i) BasicBlock =
  insts :: "'i list"
  nextlist :: "'l list"
  prevlist :: "'l list"
  pres :: "string list"
  posts :: "string list"

record CfgStats =
  count :: int
  stores :: int
  loads :: int
  jumps :: int
  joins :: int

record ('l, 'i) Cfg =
  graph :: "'l \<rightharpoonup> ('l, 'i) BasicBlock"
  ordered_labels :: "'l list"

definition BasicBlock_empty :: "('l, 'i) BasicBlock" where
  "BasicBlock_empty = \<lparr>insts = [], nextlist = [], prevlist = [], pres = [], posts = []\<rparr>"

definition encountered :: "'l \<Rightarrow> ('l, 'i) Cfg \<Rightarrow> ('l, 'i) Cfg" where
  "encountered l c = c\<lparr>ordered_labels := ordered_labels c @ [l]\<rparr>"

text \<open>
  \<^verbatim>\<open>operator[]\<close> is \<^verbatim>\<open>graph[l]\<close>: a missing key is inserted with a default-constructed
  block. The result is the block referred to and the Cfg afterwards.
\<close>

definition index_Cfg :: "'l \<Rightarrow> ('l, 'i) Cfg \<Rightarrow> ('l, 'i) BasicBlock \<times> ('l, 'i) Cfg" where
  "index_Cfg l c =
     (case graph c l of
        Some bb \<Rightarrow> (bb, c)
      | None \<Rightarrow> (BasicBlock_empty, c\<lparr>graph := (graph c)(l \<mapsto> BasicBlock_empty)\<rparr>))"

datatype std_error = out_of_range

definition at :: "('l, 'i) Cfg \<Rightarrow> 'l \<Rightarrow> std_error + ('l, 'i) BasicBlock" where
  "at c l = (case graph c l of None \<Rightarrow> Inl out_of_range | Some bb \<Rightarrow> Inr bb)"

definition keys_Cfg :: "('l, 'i) Cfg \<Rightarrow> 'l list" where
  "keys_Cfg c = ordered_labels c"

fun count_insts :: "('i \<Rightarrow> bool option) \<Rightarrow> 'i list \<Rightarrow> CfgStats \<Rightarrow> CfgStats" where
  "count_insts mem_load [] res = res"
| "count_insts mem_load (ins # inss) res =
     (let res1 = res\<lparr>count := count res + 1\<rparr>;
          res2 = (case mem_load ins of
                    None \<Rightarrow> res1
                  | Some is_load \<Rightarrow>
                      if is_load then res1\<lparr>loads := loads res1 + 1\<rparr>
                      else res1\<lparr>stores := stores res1 + 1\<rparr>)
      in count_insts mem_load inss res2)"

fun collect_stats_loop ::
  "('i \<Rightarrow> bool option) \<Rightarrow> ('l, 'i) Cfg \<Rightarrow> 'l list \<Rightarrow> CfgStats \<Rightarrow> std_error + CfgStats" where
  "collect_stats_loop mem_load c [] res = Inr res"
| "collect_stats_loop mem_load c (this_label # ls) res =
     fbind (at c this_label) (\<lambda>bb.
       let res1 = count_insts mem_load (insts bb) res;
           res2 = (if length (prevlist bb) > 1 then res1\<lparr>joins := joins res1 + 1\<rparr> else res1);
           res3 = (if length (nextlist bb) > 1 then res2\<lparr>jumps := jumps res2 + 1\<rparr> else res2)
       in collect_stats_loop mem_load c ls res3)"

definition collect_stats :: "('i \<Rightarrow> bool option) \<Rightarrow> ('l, 'i) Cfg \<Rightarrow> std_error + CfgStats" where
  "collect_stats mem_load c =
     collect_stats_loop mem_load c (keys_Cfg c)
       \<lparr>count = 0, stores = 0, loads = 0, jumps = 0, joins = 0\<rparr>"

text \<open>A Cfg of one encountered block \<open>''a''\<close> with two instructions, the second a load.\<close>

definition one_block_Cfg :: "(string, bool option) Cfg" where
  "one_block_Cfg =
     \<lparr>graph = [''a'' \<mapsto> \<lparr>insts = [None, Some True], nextlist = [], prevlist = [],
                          pres = [], posts = []\<rparr>],
      ordered_labels = [''a'']\<rparr>"

section \<open>The analysis CFG\<close>

text \<open>
  \<^verbatim>\<open>crab/cfg.hpp\<close>. Labels and statements are the type parameters \<open>'l\<close> and \<open>'s\<close>.
  \<^verbatim>\<open>m_blocks\<close>, an \<^verbatim>\<open>unordered_map\<close> from labels to owned blocks, is an association
  list: its order is the order in which the map is iterated. A reference to a block is
  the key the block is stored under. \<^verbatim>\<open>CRAB_ERROR\<close> ends the operation; the failure
  carries the CFG as it is at that moment.
\<close>

record ('l, 's) basic_block_t =
  m_bb_id :: 'l
  m_ts :: "'s list"
  m_prev :: "'l list"
  m_next :: "'l list"

record ('l, 's) cfg_t =
  m_entry :: 'l
  m_exit :: "'l option"
  m_blocks :: "('l \<times> ('l, 's) basic_block_t) list"

datatype crab_error = CannotRemoveEntry | CannotRemoveExit | BlockNotFound | DanglingBlock

definition create :: "'l \<Rightarrow> ('l, 's) basic_block_t" where
  "create bb_id = \<lparr>m_bb_id = bb_id, m_ts = [], m_prev = [], m_next = []\<rparr>"

definition cfg_new :: "'l \<Rightarrow> 'l option \<Rightarrow> ('l, 's) cfg_t" where
  "cfg_new entry exit = \<lparr>m_entry = entry, m_exit = exit, m_blocks = [(entry, create entry)]\<rparr>"

definition insert_adjacent :: "'l list \<Rightarrow> 'l \<Rightarrow> 'l list" where
  "insert_adjacent c e = (if e \<notin> set c then c @ [e] else c)"

definition remove_adjacent :: "'l list \<Rightarrow> 'l \<Rightarrow> 'l list" where
  "remove_adjacent c e = (if e \<in> set c then removeAll e c else c)"

definition get_node ::
  "('l, 's) cfg_t \<Rightarrow> 'l \<Rightarrow> crab_error \<times> ('l, 's) cfg_t + ('l, 's) basic_block_t" where
  "get_node c bb_id =
     (case map_of (m_blocks c) bb_id of
        None \<Rightarrow> Inl (BlockNotFound, c)
      | Some b \<Rightarrow> Inr b)"

definition upd_block ::
  "'l \<Rightarrow> (('l, 's) basic_block_t \<Rightarrow> ('l, 's) basic_block_t)
     \<Rightarrow> ('l \<times> ('l, 's) basic_block_t) list \<Rightarrow> ('l \<times> ('l, 's) basic_block_t) list" where
  "upd_block l f bs = map (\<lambda>(k, b). if k = l then (k, f b) else (k, b)) bs"

definition erase :: "'l \<Rightarrow> ('l \<times> 'b) list \<Rightarrow> ('l \<times> 'b) list" where
  "erase l bs = filter (\<lambda>(k, b). k \<noteq> l) bs"

definition insert_cfg :: "'l \<Rightarrow> ('l, 's) cfg_t \<Rightarrow> ('l, 's) cfg_t" where
  "insert_cfg bb_id c =
     (case map_of (m_blocks c) bb_id of
        Some b \<Rightarrow> c
      | None \<Rightarrow> c\<lparr>m_blocks := (bb_id, create bb_id) # m_blocks c\<rparr>)"

definition set_exit :: "'l \<Rightarrow> ('l, 's) cfg_t \<Rightarrow> ('l, 's) cfg_t" where
  "set_exit exit c = c\<lparr>m_exit := Some exit\<rparr>"

text \<open>\<^verbatim>\<open>basic_block_t::insert\<close>, for the block stored under \<open>l\<close>: a statement at the back.\<close>

definition add_stmt :: "'l \<Rightarrow> 's \<Rightarrow> ('l, 's) cfg_t \<Rightarrow> ('l, 's) cfg_t" where
  "add_stmt l st c = c\<lparr>m_blocks := upd_block l (\<lambda>b. b\<lparr>m_ts := m_ts b @ [st]\<rparr>) (m_blocks c)\<rparr>"

text \<open>
  \<^verbatim>\<open>a >> b\<close> and \<^verbatim>\<open>a -= b\<close> for the blocks stored under \<open>pa\<close> and \<open>pb\<close>. A block
  that is no longer in the map is a dangling reference.
\<close>

definition edge_add ::
  "'l \<Rightarrow> 'l \<Rightarrow> ('l, 's) cfg_t \<Rightarrow> crab_error \<times> ('l, 's) cfg_t + ('l, 's) cfg_t" where
  "edge_add pa pb c =
     (case (map_of (m_blocks c) pa, map_of (m_blocks c) pb) of
        (Some a, Some b) \<Rightarrow>
          Inr (c\<lparr>m_blocks :=
                 upd_block pb (\<lambda>x. x\<lparr>m_prev := insert_adjacent (m_prev x) (m_bb_id a)\<rparr>)
                   (upd_block pa (\<lambda>x. x\<lparr>m_next := insert_adjacent (m_next x) (m_bb_id b)\<rparr>)
                      (m_blocks c))\<rparr>)
      | _ \<Rightarrow> Inl (DanglingBlock, c))"

definition edge_sub ::
  "'l \<times> 'l \<Rightarrow> ('l \<times> ('l, 's) basic_block_t) list \<Rightarrow> ('l \<times> ('l, 's) basic_block_t) list" where
  "edge_sub p bs =
     (case (map_of bs (fst p), map_of bs (snd p)) of
        (Some a, Some b) \<Rightarrow>
          upd_block (snd p) (\<lambda>x. x\<lparr>m_prev := remove_adjacent (m_prev x) (m_bb_id a)\<rparr>)
            (upd_block (fst p) (\<lambda>x. x\<lparr>m_next := remove_adjacent (m_next x) (m_bb_id b)\<rparr>) bs)
      | _ \<Rightarrow> bs)"

text \<open>
  \<^verbatim>\<open>remove\<close>. The two loops collect the dead edges as pairs of block references,
  \<^verbatim>\<open>get_node(id)\<close> (here \<open>get_node c n\<close>) failing on a neighbour that is not in the map; only then are the
  edges cut and the block erased.
\<close>

fun dead_prev ::
  "('l, 's) cfg_t \<Rightarrow> 'l \<Rightarrow> 'l list \<Rightarrow> crab_error \<times> ('l, 's) cfg_t + ('l \<times> 'l) list" where
  "dead_prev c bb_id [] = Inr []"
| "dead_prev c bb_id (n # ns) =
     (if bb_id \<noteq> n
      then fbind (get_node c n) (\<lambda>_. fbind (dead_prev c bb_id ns) (\<lambda>r. Inr ((n, bb_id) # r)))
      else dead_prev c bb_id ns)"

fun dead_next ::
  "('l, 's) cfg_t \<Rightarrow> 'l \<Rightarrow> 'l list \<Rightarrow> crab_error \<times> ('l, 's) cfg_t + ('l \<times> 'l) list" where
  "dead_next c bb_id [] = Inr []"
| "dead_next c bb_id (n # ns) =
     (if bb_id \<noteq> n
      then fbind (get_node c n) (\<lambda>_. fbind (dead_next c bb_id ns) (\<lambda>r. Inr ((bb_id, n) # r)))
      else dead_next c bb_id ns)"

definition remove_cfg ::
  "'l \<Rightarrow> ('l, 's) cfg_t \<Rightarrow> crab_error \<times> ('l, 's) cfg_t + ('l, 's) cfg_t" where
  "remove_cfg bb_id c =
     (if bb_id = m_entry c then Inl (CannotRemoveEntry, c)
      else if m_exit c = Some bb_id then Inl (CannotRemoveExit, c)
      else
        fbind (get_node c bb_id) (\<lambda>bb.
        fbind (dead_prev c bb_id (m_prev bb)) (\<lambda>de1.
        fbind (dead_next c bb_id (m_next bb)) (\<lambda>de2.
          Inr (c\<lparr>m_blocks := erase bb_id (fold edge_sub (de1 @ de2) (m_blocks c))\<rparr>)))))"

definition labels :: "('l, 's) cfg_t \<Rightarrow> 'l list" where
  "labels c = map fst (m_blocks c)"

definition next_of :: "('l, 's) cfg_t \<Rightarrow> 'l \<Rightarrow> 'l list" where
  "next_of c l = (case map_of (m_blocks c) l of None \<Rightarrow> [] | Some b \<Rightarrow> m_next b)"

definition prev_of :: "('l, 's) cfg_t \<Rightarrow> 'l \<Rightarrow> 'l list" where
  "prev_of c l = (case map_of (m_blocks c) l of None \<Rightarrow> [] | Some b \<Rightarrow> m_prev b)"

text \<open>Every block is stored under its own label.\<close>

definition key_ok :: "('l \<times> ('l, 's) basic_block_t) list \<Rightarrow> bool" where
  "key_ok bs \<longleftrightarrow> (\<forall>k b. map_of bs k = Some b \<longrightarrow> m_bb_id b = k)"

text \<open>
  What the interface keeps true of a CFG: every block is stored under its label, and
  \<open>n\<close> is a successor of \<open>l\<close> exactly when \<open>l\<close> is a predecessor of \<open>n\<close> (so every
  neighbour has a block).
\<close>

definition cfg_ok :: "('l, 's) cfg_t \<Rightarrow> bool" where
  "cfg_ok c \<longleftrightarrow>
     key_ok (m_blocks c)
     \<and> (\<forall>l n. n \<in> set (next_of c l) \<longleftrightarrow> l \<in> set (prev_of c n))"

text \<open>
  The CFGs a program can build: the two constructors (\<open>cfg_new entry None\<close> and
  \<open>cfg_new entry (Some exit)\<close>, which does not create the exit block), \<^verbatim>\<open>set_exit\<close>,
  \<^verbatim>\<open>insert\<close>, a statement appended to a block, \<^verbatim>\<open>>>\<close> and \<^verbatim>\<open>-=\<close> between two
  blocks of the CFG, and \<^verbatim>\<open>remove\<close>.
\<close>

inductive cfg_built :: "('l, 's) cfg_t \<Rightarrow> bool" where
  b_new: "cfg_built (cfg_new entry exit)"
| b_set_exit: "cfg_built c \<Longrightarrow> cfg_built (set_exit exit c)"
| b_insert: "cfg_built c \<Longrightarrow> cfg_built (insert_cfg l c)"
| b_stmt: "cfg_built c \<Longrightarrow> cfg_built (add_stmt l st c)"
| b_edge_add: "cfg_built c \<Longrightarrow> edge_add a b c = Inr c' \<Longrightarrow> cfg_built c'"
| b_edge_sub:
    "cfg_built c \<Longrightarrow> map_of (m_blocks c) a \<noteq> None \<Longrightarrow> map_of (m_blocks c) b \<noteq> None
       \<Longrightarrow> cfg_built (c\<lparr>m_blocks := edge_sub (a, b) (m_blocks c)\<rparr>)"
| b_remove: "cfg_built c \<Longrightarrow> remove_cfg l c = Inr c' \<Longrightarrow> cfg_built c'"

text \<open>
  A CFG of three blocks in a row, \<open>''a'' \<rightarrow> ''b'' \<rightarrow> ''c''\<close>, with entry \<open>''a''\<close> and
  exit \<open>''c''\<close>; statements are numbers. It is what \<^verbatim>\<open>cfg_t(''a'', ''c'')\<close>, the
  insertion of \<open>''b''\<close> and \<open>''c''\<close>, one statement per block and the two edges give.
\<close>

definition chain_cfg :: "(string, nat) cfg_t" where
  "chain_cfg =
     \<lparr>m_entry = ''a'', m_exit = Some ''c'',
      m_blocks =
        [(''c'', \<lparr>m_bb_id = ''c'', m_ts = [3], m_prev = [''b''], m_next = []\<rparr>),
         (''b'', \<lparr>m_bb_id = ''b'', m_ts = [2], m_prev = [''a''], m_next = [''c'']\<rparr>),
         (''a'', \<lparr>m_bb_id = ''a'', m_ts = [1], m_prev = [], m_next = [''b'']\<rparr>)]\<rparr>"

section \<open>Proofs: buffers and scans\<close>

lemma fbind_Inr_iff: "fbind x f = Inr y \<longleftrightarrow> (\<exists>a. x = Inr a \<and> f a = Inr y)"
  by (cases x) (simp_all add: fbind_def)

lemma fbind_Inr [simp]: "fbind (Inr a) f = f a"
  by (simp add: fbind_def)

lemma fbind_Inl [simp]: "fbind (Inl e) f = Inl e"
  by (simp add: fbind_def)

lemma rd_Some: "i < length buf \<Longrightarrow> buf ! i = Some x \<Longrightarrow> rd buf i = Inr x"
  by (simp add: rd_def)

lemma rd_Inr_iff: "rd buf i = Inr x \<longleftrightarrow> i < length buf \<and> buf ! i = Some x"
  by (auto simp: rd_def split: option.splits)

lemma wr_Inr: "i < length buf \<Longrightarrow> wr buf i x = Inr (buf[i := Some x])"
  by (simp add: wr_def)

lemma double_until_total:
  "0 < a \<Longrightarrow> \<exists>c. double_until a b = Inr c \<and> a \<le> c \<and> b \<le> c"
proof (induction a b rule: double_until.induct)
  case (1 a b)
  show ?case
  proof (cases "a < b")
    case True
    with 1 obtain c where "double_until (2 * a) b = Inr c" "2 * a \<le> c" "b \<le> c"
      by auto
    with True 1 show ?thesis by (subst double_until.simps) auto
  next
    case False
    then show ?thesis by (subst double_until.simps) auto
  qed
qed

lemma double_until_8_9: "double_until 8 9 = Inr 16"
  by (simp add: double_until.simps [of 8] double_until.simps [of 16])

lemma rd_range_map_Some:
  "rd_range (pre @ map Some es @ rest) (length pre) (length es) = Inr es"
proof (induction es arbitrary: pre)
  case Nil
  then show ?case by simp
next
  case (Cons e es)
  have "rd_range ((pre @ [Some e]) @ map Some es @ rest) (length (pre @ [Some e])) (length es) = Inr es"
    by (rule Cons.IH)
  then show ?case by (simp add: rd_def nth_append)
qed

lemma elem_dense_map_Some:
  "elem_dense (pre @ map Some es @ rest) k (length pre) (length es) = Inr (k \<in> key ` set es)"
proof (induction es arbitrary: pre)
  case Nil
  then show ?case by simp
next
  case (Cons e es)
  have "elem_dense ((pre @ [Some e]) @ map Some es @ rest) k (length (pre @ [Some e])) (length es)
          = Inr (k \<in> key ` set es)"
    by (rule Cons.IH)
  then show ?case by (auto simp: rd_def nth_append)
qed

lemma lookup_dense_map_Some:
  "lookup_dense (pre @ map Some es @ rest) k (length pre) (length es)
     = Inr (map_of (map (\<lambda>e. (key e, val e)) es) k)"
proof (induction es arbitrary: pre)
  case Nil
  then show ?case by simp
next
  case (Cons e es)
  have "lookup_dense ((pre @ [Some e]) @ map Some es @ rest) k (length (pre @ [Some e])) (length es)
          = Inr (map_of (map (\<lambda>e. (key e, val e)) es) k)"
    by (rule Cons.IH)
  then show ?case by (auto simp: rd_def nth_append)
qed

lemma find_key_map_Some:
  "j < length es \<Longrightarrow> key (es ! j) = k \<Longrightarrow> \<forall>j'<j. key (es ! j') \<noteq> k
     \<Longrightarrow> find_key (map Some es @ rest) k i = Inr (i + j)"
proof (induction es arbitrary: i j)
  case Nil
  then show ?case by simp
next
  case (Cons e es)
  show ?case
  proof (cases j)
    case 0
    with Cons.prems show ?thesis by simp
  next
    case (Suc j0)
    from Cons.prems Suc have "key e \<noteq> k" by auto
    moreover have "find_key (map Some es @ rest) k (Suc i) = Inr (Suc i + j0)"
      using Cons.prems Suc by (intro Cons.IH) auto
    ultimately show ?thesis using Suc by simp
  qed
qed

lemma fill_sparse_spec:
  "distinct ks \<Longrightarrow> \<forall>k\<in>set ks. unat k < length tab \<Longrightarrow>
     \<exists>tab'. fill_sparse tab ks idx = Inr tab' \<and> length tab' = length tab
        \<and> (\<forall>j<length ks. tab' ! unat (ks ! j) = Some (idx + of_nat j))
        \<and> (\<forall>i. i \<notin> unat ` set ks \<longrightarrow> tab' ! i = tab ! i)"
proof (induction ks arbitrary: tab idx)
  case Nil
  then show ?case by simp
next
  case (Cons k ks)
  let ?t = "tab[unat k := Some idx]"
  from Cons.prems have d: "distinct ks" and b: "\<forall>k\<in>set ks. unat k < length ?t" and kn: "k \<notin> set ks"
    and kb: "unat k < length tab"
    by auto
  from Cons.IH [OF d b, of "idx + 1"] obtain tab' where
    t: "fill_sparse ?t ks (idx + 1) = Inr tab'" "length tab' = length ?t"
      "\<forall>j<length ks. tab' ! unat (ks ! j) = Some (idx + 1 + of_nat j)"
      "\<forall>i. i \<notin> unat ` set ks \<longrightarrow> tab' ! i = ?t ! i"
    by blast
  have k0: "tab' ! unat k = Some idx"
  proof -
    have "unat k \<notin> unat ` set ks" using kn by (auto dest: unsigned_word_eqI)
    with t(4) kb show ?thesis by simp
  qed
  have "\<forall>j<length (k # ks). tab' ! unat ((k # ks) ! j) = Some (idx + of_nat j)"
  proof (intro allI impI)
    fix j assume "j < length (k # ks)"
    then show "tab' ! unat ((k # ks) ! j) = Some (idx + of_nat j)"
      using k0 t(3) by (cases j) (auto simp: add.assoc)
  qed
  moreover have "\<forall>i. i \<notin> unat ` set (k # ks) \<longrightarrow> tab' ! i = tab ! i"
    using t(4) by auto
  ultimately show ?case using t(1,2) kb by (simp add: wr_def)
qed

lemma swap_remove_distinct:
  assumes "distinct xs" "j < length xs"
  shows "distinct (take (length xs - 1) (xs[j := xs ! (length xs - 1)]))"
    and "set (take (length xs - 1) (xs[j := xs ! (length xs - 1)])) = set xs - {xs ! j}"
proof -
  from assms have ne: "xs \<noteq> []" by auto
  then have xs: "xs = butlast xs @ [last xs]" by simp
  have l: "xs ! (length xs - 1) = last xs" using ne by (simp add: last_conv_nth)
  have db: "distinct (butlast xs)" using assms(1) by (rule distinct_butlast)
  have ln: "last xs \<notin> set (butlast xs)" using assms(1) xs
    by (metis distinct_append disjoint_iff list.set_intros(1) distinct.simps(2) distinct1_rotate rotate1.simps(2))
  have sb: "set xs = insert (last xs) (set (butlast xs))" using xs
    by (metis Un_insert_right append_Nil2 list.simps(15) set_append)
  show "distinct (take (length xs - 1) (xs[j := xs ! (length xs - 1)]))"
  proof (cases "j = length xs - 1")
    case True
    then show ?thesis using db l ne by (simp add: butlast_conv_take)
  next
    case False
    with assms have jb: "j < length (butlast xs)" by simp
    have "take (length xs - 1) (xs[j := last xs]) = (butlast xs)[j := last xs]"
      by (simp add: butlast_conv_take take_update_swap)
    then show ?thesis using db ln jb l by (simp add: distinct_list_update)
  qed
  show "set (take (length xs - 1) (xs[j := xs ! (length xs - 1)])) = set xs - {xs ! j}"
  proof (cases "j = length xs - 1")
    case True
    then show ?thesis using db l ne ln sb by (auto simp: butlast_conv_take)
  next
    case False
    with assms have jb: "j < length (butlast xs)" by simp
    have e: "take (length xs - 1) (xs[j := last xs]) = (butlast xs)[j := last xs]"
      by (simp add: butlast_conv_take take_update_swap)
    have "xs ! j = butlast xs ! j" using jb by (simp add: nth_butlast)
    moreover have "butlast xs ! j \<in> set (butlast xs)" using jb by simp
    ultimately show ?thesis using db ln jb l e sb
      by (auto simp: set_update_distinct)
  qed
qed


section \<open>Proofs: AdaptSMap\<close>

lemma inv_live_length: "smap_inv m \<Longrightarrow> length (live m) = sz m"
  by (simp add: smap_inv_def live_def)

lemma inv_take_dense: "smap_inv m \<Longrightarrow> take (sz m) (dense m) = map Some (live m)"
  unfolding smap_inv_def live_def
  by (intro nth_equalityI) auto

lemma inv_dense_split: "smap_inv m \<Longrightarrow> dense m = map Some (live m) @ drop (sz m) (dense m)"
  using inv_take_dense [of m] append_take_drop_id [of "sz m" "dense m"] by simp

lemma inv_dense_nth: "smap_inv m \<Longrightarrow> i < sz m \<Longrightarrow> dense m ! i = Some (live m ! i)"
  using inv_take_dense [of m] inv_live_length [of m]
  by (metis nth_map nth_take)

lemma elts_inv: "smap_inv m \<Longrightarrow> elts m = Inr (live m)"
  using rd_range_map_Some [of "[]" "live m" "drop (sz m) (dense m)"]
    inv_dense_split [of m] inv_live_length [of m]
  by (simp add: elts_def)

lemma keys_inv: "smap_inv m \<Longrightarrow> keys m = Inr (map key (live m))"
  by (simp add: keys_def elts_inv)

lemma distinct_key_length: "distinct (ks :: key_t list) \<Longrightarrow> length ks \<le> 65536"
proof -
  assume "distinct ks"
  then have "length ks = card (set ks)" by (simp add: distinct_card)
  also have "\<dots> \<le> card (UNIV :: key_t set)" by (rule card_mono) auto
  also have "\<dots> = 65536" by (simp add: card_word)
  finally show ?thesis .
qed

lemma inv_sz_bound: "smap_inv m \<Longrightarrow> sz m \<le> 65536"
  using distinct_key_length [of "map key (live m)"] inv_live_length [of m]
  by (simp add: smap_inv_def)

lemma inv_sz_bound_absent:
  assumes "smap_inv m" "k \<notin> key ` set (live m)"
  shows "sz m < 65536"
proof -
  from assms have "distinct (k # map key (live m))" by (simp add: smap_inv_def)
  from distinct_key_length [OF this] inv_live_length [OF assms(1)] show ?thesis by simp
qed

lemma smap_abs_dom: "dom (smap_abs m) = key ` set (live m)"
  by (force simp: smap_abs_def dom_map_of_conv_image_fst)

lemma smap_abs_nth:
  "smap_inv m \<Longrightarrow> i < sz m \<Longrightarrow> smap_abs m (key (live m ! i)) = Some (val (live m ! i))"
proof -
  assume a: "smap_inv m" "i < sz m"
  then have d: "distinct (map fst (map (\<lambda>e. (key e, val e)) (live m)))"
    by (simp add: smap_inv_def comp_def)
  have "(key (live m ! i), val (live m ! i)) \<in> set (map (\<lambda>e. (key e, val e)) (live m))"
    using a inv_live_length [of m] by (auto intro!: image_eqI [of _ _ "live m ! i"])
  with d show ?thesis unfolding smap_abs_def by (rule map_of_is_SomeI)
qed

lemma smap_abs_SomeD:
  "smap_inv m \<Longrightarrow> smap_abs m k = Some v \<Longrightarrow> \<exists>i < sz m. live m ! i = \<lparr>key = k, val = v\<rparr>"
proof -
  assume a: "smap_inv m" "smap_abs m k = Some v"
  then have "(k, v) \<in> set (map (\<lambda>e. (key e, val e)) (live m))"
    unfolding smap_abs_def by (rule_tac map_of_SomeD)
  then obtain e where "e \<in> set (live m)" "key e = k" "val e = v" by auto
  then show ?thesis using inv_live_length [OF a(1)] by (auto simp: in_set_conv_nth)
qed

lemma card_dom_smap_abs: "smap_inv m \<Longrightarrow> card (dom (smap_abs m)) = sz m"
proof -
  assume a: "smap_inv m"
  have "card (dom (smap_abs m)) = card (set (map key (live m)))"
    by (simp add: smap_abs_dom)
  also have "\<dots> = length (map key (live m))"
    using a by (intro distinct_card) (simp add: smap_inv_def)
  finally show ?thesis using inv_live_length [OF a] by simp
qed

lemma unat_of_nat_key: "i < 65536 \<Longrightarrow> unat (of_nat i :: key_t) = i"
  by (simp add: unat_of_nat)

lemma lookup_inv: "smap_inv m \<Longrightarrow> lookup junk m k = Inr (smap_abs m k)"
proof (cases "sparse m")
  case None
  assume a: "smap_inv m"
  show ?thesis
    using lookup_dense_map_Some [of "[]" "live m" "drop (sz m) (dense m)" k]
      inv_dense_split [OF a] inv_live_length [OF a] None
    by (simp add: lookup_def smap_abs_def)
next
  case (Some tab)
  assume a: "smap_inv m"
  define idx where "idx = unat (rd_junk junk tab (unat k))"
  show ?thesis
  proof (cases "smap_abs m k")
    case None
    then have nk: "k \<notin> key ` set (live m)" using smap_abs_dom [of m] by auto
    have "idx < sz m \<Longrightarrow> key (live m ! idx) \<noteq> k"
      using nk inv_live_length [OF a] by (metis image_eqI nth_mem)
    then show ?thesis
      using None Some a inv_dense_nth [OF a, of idx]
      by (auto simp: lookup_def Let_def idx_def [symmetric] rd_def smap_inv_def)
  next
    case (Some v)
    from smap_abs_SomeD [OF a Some] obtain i where i: "i < sz m" "live m ! i = \<lparr>key = k, val = v\<rparr>"
      by blast
    from a \<open>sparse m = Some tab\<close> i have t: "unat k < length tab" "tab ! unat k = Some (of_nat i)"
      by (auto simp: smap_inv_def sparse_inv_def)
    have "i < 65536" using i(1) inv_sz_bound [OF a] by simp
    then have "idx = i" using t by (simp add: idx_def rd_junk_def rd_def unat_of_nat_key)
    then show ?thesis
      using Some \<open>sparse m = Some tab\<close> a i inv_dense_nth [OF a, of i]
      by (auto simp: lookup_def Let_def idx_def [symmetric] rd_def smap_inv_def)
  qed
qed

lemma elem_inv: "smap_inv m \<Longrightarrow> elem junk m k = Inr (k \<in> dom (smap_abs m))"
proof (cases "sparse m")
  case None
  assume a: "smap_inv m"
  show ?thesis
    using elem_dense_map_Some [of "[]" "live m" "drop (sz m) (dense m)" k]
      inv_dense_split [OF a] inv_live_length [OF a] None
    by (simp add: elem_def smap_abs_dom)
next
  case (Some tab)
  assume a: "smap_inv m"
  define idx where "idx = unat (rd_junk junk tab (unat k))"
  show ?thesis
  proof (cases "smap_abs m k")
    case None
    then have nk: "k \<notin> key ` set (live m)" using smap_abs_dom [of m] by auto
    have "idx < sz m \<Longrightarrow> key (live m ! idx) \<noteq> k"
      using nk inv_live_length [OF a] by (metis image_eqI nth_mem)
    then show ?thesis
      using None Some a inv_dense_nth [OF a, of idx] nk
      by (auto simp: elem_def Let_def idx_def [symmetric] rd_def smap_inv_def smap_abs_dom)
  next
    case (Some v)
    from smap_abs_SomeD [OF a Some] obtain i where i: "i < sz m" "live m ! i = \<lparr>key = k, val = v\<rparr>"
      by blast
    from a \<open>sparse m = Some tab\<close> i have t: "unat k < length tab" "tab ! unat k = Some (of_nat i)"
      by (auto simp: smap_inv_def sparse_inv_def)
    have "i < 65536" using i(1) inv_sz_bound [OF a] by simp
    then have "idx = i" using t by (simp add: idx_def rd_junk_def rd_def unat_of_nat_key)
    then show ?thesis
      using Some \<open>sparse m = Some tab\<close> a i inv_dense_nth [OF a, of i]
      by (auto simp: elem_def Let_def idx_def [symmetric] rd_def smap_inv_def)
  qed
qed

lemma live_cong: "sz m' = sz m \<Longrightarrow> take (sz m) (dense m') = take (sz m) (dense m) \<Longrightarrow> live m' = live m"
  by (simp add: live_def)

lemma smap_abs_Some_iff:
  "smap_inv m \<Longrightarrow> smap_abs m k = Some v \<longleftrightarrow> \<lparr>key = k, val = v\<rparr> \<in> set (live m)"
proof -
  assume a: "smap_inv m"
  then have d: "distinct (map fst (map (\<lambda>e. (key e, val e)) (live m)))"
    by (simp add: smap_inv_def comp_def)
  have r: "\<And>x::elt_t. \<lparr>key = key x, val = val x\<rparr> = x" by simp
  have "(k, v) \<in> set (map (\<lambda>e. (key e, val e)) (live m)) \<longleftrightarrow> \<lparr>key = k, val = v\<rparr> \<in> set (live m)"
    by (auto simp: image_iff r intro: bexI [of _ "\<lparr>key = k, val = v\<rparr>"])
  with d show ?thesis unfolding smap_abs_def by (simp add: map_of_eq_Some_iff del: set_map)
qed

lemma fold_max_ge:
  "(a::key_t) \<le> fold (\<lambda>k acc. max acc k) ks a \<and> (\<forall>k\<in>set ks. k \<le> fold (\<lambda>k acc. max acc k) ks a)"
proof (induction ks arbitrary: a)
  case Nil
  then show ?case by simp
next
  case (Cons k ks)
  from Cons [of "max a k"] show ?case by (auto simp: max_def split: if_splits)
qed

lemma fill_fresh:
  assumes c: "sz m \<le> length (dense m)" "\<forall>i < sz m. dense m ! i \<noteq> None"
      and d: "distinct (map key (live m))"
      and b: "\<forall>e\<in>set (live m). unat (key e) < ub"
  shows "\<exists>tab. fill_sparse (replicate ub None) (map key (live m)) 0 = Inr tab \<and> length tab = ub
           \<and> sparse_inv (m\<lparr>sparse_ub := ub, sparse := Some tab\<rparr>)"
proof -
  have l: "length (live m) = sz m" using c by (simp add: live_def)
  from fill_sparse_spec [OF d, of "replicate ub None" 0] b
  obtain tab where t: "fill_sparse (replicate ub None) (map key (live m)) 0 = Inr tab"
      "length tab = ub"
      "\<forall>j<length (map key (live m)). tab ! unat (map key (live m) ! j) = Some (0 + of_nat j)"
    by auto
  have "live (m\<lparr>sparse_ub := ub, sparse := Some tab\<rparr>) = live m" by (simp add: live_def)
  then have "sparse_inv (m\<lparr>sparse_ub := ub, sparse := Some tab\<rparr>)"
    using t(2,3) b l by (simp add: sparse_inv_def)
  with t show ?thesis by blast
qed

lemma keys_cells:
  assumes c: "sz m \<le> length (dense m)" "\<forall>i < sz m. dense m ! i \<noteq> None"
  shows "keys m = Inr (map key (live m))"
proof -
  have l: "length (live m) = sz m" using c by (simp add: live_def)
  have "take (sz m) (dense m) = map Some (live m)"
    unfolding live_def using c by (intro nth_equalityI) auto
  then have "dense m = map Some (live m) @ drop (sz m) (dense m)"
    using append_take_drop_id [of "sz m" "dense m"] by simp
  then show ?thesis
    using rd_range_map_Some [of "[]" "live m" "drop (sz m) (dense m)"] l
    by (simp add: keys_def elts_def)
qed

lemma growSparse_inv:
  assumes a: "smap_inv m" and s: "sparse m \<noteq> None"
  shows "\<exists>m3. growSparse n m = Inr m3 \<and> smap_inv m3 \<and> dense m3 = dense m \<and> sz m3 = sz m
            \<and> dense_maxsz m3 = dense_maxsz m \<and> sparse m3 \<noteq> None \<and> n \<le> sparse_ub m3"
proof -
  from s obtain tab0 where tab0: "sparse m = Some tab0" by auto
  with a have ub0: "0 < sparse_ub m" "length tab0 = sparse_ub m" by (auto simp: smap_inv_def)
  from double_until_total [OF ub0(1), of n] obtain ub where
    ub: "double_until (sparse_ub m) n = Inr ub" "sparse_ub m \<le> ub" "n \<le> ub" by blast
  have c: "sz m \<le> length (dense m)" "\<forall>i < sz m. dense m ! i \<noteq> None"
    and d: "distinct (map key (live m))"
    using a by (auto simp: smap_inv_def)
  have b: "\<forall>e\<in>set (live m). unat (key e) < ub"
  proof
    fix e assume "e \<in> set (live m)"
    then obtain i where "i < sz m" "live m ! i = e"
      using inv_live_length [OF a] by (auto simp: in_set_conv_nth)
    then have "unat (key e) < length tab0"
      using a tab0 by (auto simp: smap_inv_def sparse_inv_def)
    then show "unat (key e) < ub" using ub0 ub by simp
  qed
  from fill_fresh [OF c d b] obtain tab where
    t: "fill_sparse (replicate ub None) (map key (live m)) 0 = Inr tab" "length tab = ub"
      "sparse_inv (m\<lparr>sparse_ub := ub, sparse := Some tab\<rparr>)" by blast
  let ?m3 = "m\<lparr>sparse_ub := ub, sparse := Some tab\<rparr>"
  have "growSparse n m = Inr ?m3"
    using ub t keys_cells [OF c] by (simp add: growSparse_def)
  moreover have "live ?m3 = live m" by (simp add: live_def)
  then have "smap_inv ?m3"
    using a t ub ub0 by (simp add: smap_inv_def)
  ultimately show ?thesis using ub by simp
qed

lemma growDense_inv:
  assumes a: "smap_inv m" and f: "dense_maxsz m \<le> sz m"
  shows "\<exists>m1. growDense (sz m + 1) m = Inr m1 \<and> smap_inv m1 \<and> live m1 = live m \<and> sz m1 = sz m
            \<and> sz m1 < dense_maxsz m1 \<and> sparse m1 \<noteq> None"
proof -
  from a f have e: "sz m = dense_maxsz m" "length (dense m) = dense_maxsz m" "0 < dense_maxsz m"
    by (auto simp: smap_inv_def)
  from double_until_total [OF e(3), of "sz m + 1"] obtain cap where
    cap: "double_until (dense_maxsz m) (sz m + 1) = Inr cap" "dense_maxsz m \<le> cap" "sz m + 1 \<le> cap"
    by blast
  let ?d = "realloc (dense m) cap"
  have rd: "?d = dense m @ replicate (cap - length (dense m)) None"
    using cap e by (simp add: realloc_def)
  have ld: "length ?d = cap" using cap e by (simp add: rd)
  have td: "take (sz m) ?d = take (sz m) (dense m)" using e by (simp add: rd)
  let ?m1 = "m\<lparr>dense_maxsz := cap, dense := ?d\<rparr>"
  have l1: "live ?m1 = live m" using td by (simp add: live_def)
  have c1: "sz ?m1 \<le> length (dense ?m1)" "\<forall>i < sz ?m1. dense ?m1 ! i \<noteq> None"
    using a cap e ld by (auto simp: smap_inv_def rd nth_append)
  have d1: "distinct (map key (live ?m1))" using a l1 by (simp add: smap_inv_def)
  show ?thesis
  proof (cases "sparse m")
    case (Some tab0)
    then have "growDense (sz m + 1) m = Inr ?m1"
      using cap e by (simp add: growDense_def)
    moreover have "sparse_inv ?m1" using a l1 Some by (auto simp: smap_inv_def sparse_inv_def)
    then have "smap_inv ?m1"
      using a c1 d1 ld cap e Some by (simp add: smap_inv_def)
    ultimately show ?thesis using l1 cap Some by simp
  next
    case None
    define key_max where "key_max = fold (\<lambda>k acc. max acc k) (map key (live ?m1)) 0"
    define ub where "ub = unat key_max + 1"
    have b: "\<forall>e\<in>set (live ?m1). unat (key e) < ub"
    proof
      fix e assume "e \<in> set (live ?m1)"
      then have "key e \<le> key_max"
        using fold_max_ge [of 0 "map key (live ?m1)"] by (auto simp: key_max_def)
      then show "unat (key e) < ub" by (simp add: ub_def word_le_nat_alt)
    qed
    from fill_fresh [OF c1 d1 b] obtain tab where
      t: "fill_sparse (replicate ub None) (map key (live ?m1)) 0 = Inr tab" "length tab = ub"
        "sparse_inv (?m1\<lparr>sparse_ub := ub, sparse := Some tab\<rparr>)" by blast
    let ?m2 = "?m1\<lparr>sparse_ub := ub, sparse := Some tab\<rparr>"
    have "growDense (sz m + 1) m = Inr ?m2"
      using cap e None keys_cells [OF c1] t
      by (simp add: growDense_def Let_def key_max_def ub_def)
    moreover have l2: "live ?m2 = live m" using td by (simp add: live_def)
    moreover have "smap_inv ?m2"
      using c1 d1 t ld cap e l2 l1 by (simp add: smap_inv_def ub_def)
    ultimately show ?thesis using cap by simp
  qed
qed

lemma add_index_inv:
  assumes a: "smap_inv m" and nk: "k \<notin> key ` set (live m)"
  shows "\<exists>m4. add_index k m = Inr m4 \<and> smap_inv m4 \<and> dense m4 = dense m \<and> sz m4 = sz m
            \<and> dense_maxsz m4 = dense_maxsz m \<and> (sparse m4 = None \<longleftrightarrow> sparse m = None)
            \<and> (\<forall>tab. sparse m4 = Some tab \<longrightarrow>
                  unat k < length tab \<and> tab ! unat k = Some (of_nat (sz m)))"
proof (cases "sparse m")
  case None
  with a show ?thesis by (simp add: add_index_def)
next
  case (Some tab0)
  have "\<exists>m3. (if sparse_ub m \<le> unat k then growSparse (unat k + 1) m else Inr m) = Inr m3
          \<and> smap_inv m3 \<and> dense m3 = dense m \<and> sz m3 = sz m
          \<and> dense_maxsz m3 = dense_maxsz m \<and> sparse m3 \<noteq> None \<and> unat k < sparse_ub m3"
  proof (cases "sparse_ub m \<le> unat k")
    case True
    from growSparse_inv [OF a, of "unat k + 1"] Some True show ?thesis by auto
  next
    case False
    with a Some show ?thesis by auto
  qed
  then obtain m3 tab where m3:
    "(if sparse_ub m \<le> unat k then growSparse (unat k + 1) m else Inr m) = Inr m3"
    "smap_inv m3" "dense m3 = dense m" "sz m3 = sz m" "dense_maxsz m3 = dense_maxsz m"
    "sparse m3 = Some tab" "unat k < sparse_ub m3"
    by auto
  have l3: "live m3 = live m" using m3 by (simp add: live_def)
  have lt: "length tab = sparse_ub m3" using m3 by (simp add: smap_inv_def)
  let ?tab' = "tab[unat k := Some (of_nat (sz m3))]"
  let ?m4 = "m3\<lparr>sparse := Some ?tab'\<rparr>"
  have r: "add_index k m = Inr ?m4"
    using Some m3 lt by (simp add: add_index_def wr_def)
  have l4: "live ?m4 = live m" using l3 by (simp add: live_def)
  have "sparse_inv ?m4"
    unfolding sparse_inv_def
  proof (simp add: l4, intro allI impI)
    fix i assume i: "i < sz m3"
    then have "live m ! i \<in> set (live m)" using inv_live_length [OF a] m3 by simp
    with nk have "key (live m ! i) \<noteq> k" by auto
    then have ne: "unat (key (live m ! i)) \<noteq> unat k" by (auto dest: unsigned_word_eqI)
    from m3 i l3 have "unat (key (live m ! i)) < length tab \<and> tab ! unat (key (live m ! i)) = Some (of_nat i)"
      by (auto simp: smap_inv_def sparse_inv_def)
    with ne show "unat (key (live m ! i)) < length tab \<and>
         tab[unat k := Some (word_of_nat (sz m3))] ! unat (key (live m ! i)) = Some (word_of_nat i)"
      by simp
  qed
  then have "smap_inv ?m4"
    using m3 l3 l4 lt by (simp add: smap_inv_def)
  with r m3 lt Some show ?thesis by simp
qed

lemma sparse_inv_alt:
  "sparse_inv m \<longleftrightarrow>
     (\<forall>tab. sparse m = Some tab \<longrightarrow>
        (\<forall>i < sz m. unat (key (live m ! i)) < length tab
                    \<and> tab ! unat (key (live m ! i)) = Some (of_nat i)))"
  by (simp add: sparse_inv_def split: option.splits)

lemma smap_inv_alt:
  "smap_inv m \<longleftrightarrow>
     length (dense m) = dense_maxsz m \<and> 0 < dense_maxsz m \<and> sz m \<le> dense_maxsz m
     \<and> (\<forall>i < sz m. dense m ! i \<noteq> None)
     \<and> distinct (map key (live m))
     \<and> (sparse m = None \<longrightarrow> dense_maxsz m = 8)
     \<and> (\<forall>tab. sparse m = Some tab \<longrightarrow> length tab = sparse_ub m \<and> 0 < sparse_ub m)
     \<and> sparse_inv m"
  by (simp add: smap_inv_def split: option.splits)

lemma add_inv:
  assumes a: "smap_inv m" and nk: "k \<notin> key ` set (live m)"
  shows "\<exists>m'. add k v m = Inr m' \<and> smap_inv m' \<and> live m' = live m @ [\<lparr>key = k, val = v\<rparr>]
            \<and> sz m' = sz m + 1
            \<and> (sparse m' = None \<longleftrightarrow> sparse m = None \<and> sz m < dense_maxsz m)"
proof -
  define g where "g = (if dense_maxsz m \<le> sz m then growDense (sz m + 1) m else Inr m)"
  have "\<exists>m1. g = Inr m1
          \<and> smap_inv m1 \<and> live m1 = live m \<and> sz m1 = sz m \<and> sz m1 < dense_maxsz m1
          \<and> (sparse m1 = None \<longleftrightarrow> sparse m = None \<and> sz m < dense_maxsz m)"
  proof (cases "dense_maxsz m \<le> sz m")
    case True
    from growDense_inv [OF a True] True show ?thesis unfolding g_def by auto
  next
    case False
    with a show ?thesis unfolding g_def by auto
  qed
  then obtain m1 where m1: "g = Inr m1
          \<and> smap_inv m1 \<and> live m1 = live m \<and> sz m1 = sz m \<and> sz m1 < dense_maxsz m1
          \<and> (sparse m1 = None \<longleftrightarrow> sparse m = None \<and> sz m < dense_maxsz m)" ..
  from m1 have g1: "g = Inr m1" and i1: "smap_inv m1" and l1: "live m1 = live m"
    and s1: "sz m1 = sz m" and c1: "sz m1 < dense_maxsz m1"
    and sp1: "sparse m1 = None \<longleftrightarrow> sparse m = None \<and> sz m < dense_maxsz m"
    by simp_all
  let ?e = "\<lparr>key = k, val = v\<rparr>"
  let ?d1 = "(dense m1)[sz m := Some ?e]"
  let ?m2 = "m1\<lparr>dense := ?d1\<rparr>"
  have ld: "length (dense m1) = dense_maxsz m1" using i1 by (simp add: smap_inv_alt)
  have w: "wr (dense m1) (sz m1) ?e = Inr ?d1" using s1 c1 ld by (simp add: wr_def)
  have l2: "live ?m2 = live m" using l1 s1 by (simp add: live_def)
  have "sparse_inv ?m2" using i1 l1 l2 by (auto simp: smap_inv_alt sparse_inv_alt split: option.splits)
  then have i2: "smap_inv ?m2" using i1 l1 l2 s1 by (simp add: smap_inv_alt)
  have nk2: "k \<notin> key ` set (live ?m2)" using nk l2 by simp
  from add_index_inv [OF i2 nk2] obtain m4 where m4: "add_index k ?m2 = Inr m4 \<and> smap_inv m4
      \<and> dense m4 = dense ?m2 \<and> sz m4 = sz ?m2
      \<and> dense_maxsz m4 = dense_maxsz ?m2 \<and> (sparse m4 = None \<longleftrightarrow> sparse ?m2 = None)
      \<and> (\<forall>tab. sparse m4 = Some tab \<longrightarrow>
                  unat k < length tab \<and> tab ! unat k = Some (of_nat (sz ?m2)))" ..
  from m4 have r4: "add_index k ?m2 = Inr m4"
    and i4: "smap_inv m4" and d4: "dense m4 = ?d1" and s4: "sz m4 = sz m"
    and c4: "dense_maxsz m4 = dense_maxsz m1" and sp4: "sparse m4 = None \<longleftrightarrow> sparse m1 = None"
    and t4: "\<forall>tab. sparse m4 = Some tab \<longrightarrow> unat k < length tab \<and> tab ! unat k = Some (of_nat (sz m))"
    using s1 by simp_all
  let ?m' = "m4\<lparr>sz := sz m + 1\<rparr>"
  have r: "add k v m = Inr ?m'"
    unfolding add_def g_def [symmetric] using g1 w r4 s4 s1 by simp
  have l4: "live m4 = live m" using d4 s4 l2 s1 by (simp add: live_def)
  have ll: "length (live m) = sz m" using inv_live_length [OF a] .
  have l': "live ?m' = live m @ [?e]"
  proof -
    have "take (Suc (sz m)) ?d1 = take (sz m) ?d1 @ [?d1 ! sz m]"
      using s1 c1 ld by (intro take_Suc_conv_app_nth) simp
    moreover have "?d1 ! sz m = Some ?e" using s1 c1 ld by simp
    moreover have "map the (take (sz m) ?d1) = live m" using l2 s1 by (simp add: live_def)
    ultimately show ?thesis using d4 by (simp add: live_def)
  qed
  have si: "sparse_inv ?m'"
  proof (cases "sparse m4")
    case None
    then show ?thesis by (simp add: sparse_inv_alt)
  next
    case (Some tab)
    have old: "\<forall>i < sz m. unat (key (live m ! i)) < length tab \<and>
                      tab ! unat (key (live m ! i)) = Some (of_nat i)"
      using i4 Some l4 s4 by (auto simp: smap_inv_alt sparse_inv_alt)
    have new: "unat k < length tab \<and> tab ! unat k = Some (of_nat (sz m))"
      using t4 Some by simp
    have "\<forall>i < sz m + 1. unat (key ((live m @ [?e]) ! i)) < length tab \<and>
                      tab ! unat (key ((live m @ [?e]) ! i)) = Some (of_nat i)"
    proof (intro allI impI)
      fix i assume "i < sz m + 1"
      then consider "i < sz m" | "i = sz m" by linarith
      then show "unat (key ((live m @ [?e]) ! i)) < length tab \<and>
                      tab ! unat (key ((live m @ [?e]) ! i)) = Some (of_nat i)"
      proof cases
        case 1
        then show ?thesis using old ll by (simp add: nth_append)
      next
        case 2
        then show ?thesis using new ll by (simp add: nth_append)
      qed
    qed
    then show ?thesis using Some l' by (simp add: sparse_inv_alt)
  qed
  have cells: "\<forall>i < sz m + 1. ?d1 ! i \<noteq> None"
  proof (intro allI impI)
    fix i assume "i < sz m + 1"
    then consider "i < sz m" | "i = sz m" by linarith
    then show "?d1 ! i \<noteq> None"
    proof cases
      case 1
      then have "dense m1 ! i \<noteq> None" using i1 s1 by (simp add: smap_inv_alt)
      with 1 show ?thesis by simp
    next
      case 2
      then show ?thesis using s1 c1 ld by simp
    qed
  qed
  have dk: "distinct (map key (live m @ [?e]))" using a nk by (simp add: smap_inv_alt)
  have rest: "length (dense m4) = dense_maxsz m4" "0 < dense_maxsz m4" "sz m + 1 \<le> dense_maxsz m4"
    "sparse m4 = None \<longrightarrow> dense_maxsz m4 = 8"
    "\<forall>tab. sparse m4 = Some tab \<longrightarrow> length tab = sparse_ub m4 \<and> 0 < sparse_ub m4"
    using i4 c4 c1 s1 by (simp_all add: smap_inv_alt)
  have "smap_inv ?m'"
    unfolding smap_inv_alt using rest cells dk si l' d4 by simp
  with r l' sp4 sp1 show ?thesis by simp
qed

lemma key_nth_inj:
  assumes a: "smap_inv m" and "i < sz m" "j < sz m" "key (live m ! i) = key (live m ! j)"
  shows "i = j"
proof -
  have d: "distinct (map key (live m))" using a by (simp add: smap_inv_alt)
  have "map key (live m) ! i = map key (live m) ! j"
    using assms inv_live_length [OF a] by simp
  moreover have "i < length (map key (live m))" "j < length (map key (live m))"
    using assms inv_live_length [OF a] by simp_all
  ultimately show ?thesis
    using nth_eq_iff_index_eq [OF d, of i j] by blast
qed

lemma remove_inv:
  assumes a: "smap_inv m" and i: "i < sz m" and k: "key (live m ! i) = k"
  shows "\<exists>m'. remove k m = Inr m' \<and> smap_inv m' \<and> sz m' = sz m - 1
            \<and> live m' = take (sz m - 1) ((live m)[i := live m ! (sz m - 1)])
            \<and> (sparse m' = None \<longleftrightarrow> sparse m = None)"
proof -
  define n where "n = sz m - 1"
  define repl where "repl = live m ! n"
  have n: "n < sz m" "sz m = Suc n" "i \<le> n" using i by (simp_all add: n_def)
  have ll: "length (live m) = sz m" using inv_live_length [OF a] .
  have ld: "length (dense m) = dense_maxsz m" "sz m \<le> dense_maxsz m"
    using a by (simp_all add: smap_inv_alt)
  have rn: "rd (dense m) n = Inr repl"
    using inv_dense_nth [OF a n(1)] n ld by (simp add: rd_def repl_def)
  let ?d = "(dense m)[i := Some repl]"
  have wi: "wr (dense m) i repl = Inr ?d" using i ld by (simp add: wr_def)
  have lv: "map the (take n ?d) = take n ((live m)[i := repl])"
  proof (intro nth_equalityI)
    show "length (map the (take n ?d)) = length (take n ((live m)[i := repl]))"
      using n ld ll by simp
  next
    fix j assume "j < length (map the (take n ?d))"
    then have j: "j < n" by simp
    then have "dense m ! j = Some (live m ! j)" using inv_dense_nth [OF a, of j] n by simp
    then show "map the (take n ?d) ! j = take n ((live m)[i := repl]) ! j"
      using j n ld ll by (simp add: nth_list_update)
  qed
  have dk: "distinct (map key (take n ((live m)[i := repl])))"
  proof -
    have d: "distinct (map key (live m))" using a by (simp add: smap_inv_alt)
    have "map key (take n ((live m)[i := repl]))
            = take (length (map key (live m)) - 1)
                ((map key (live m))[i := map key (live m) ! (length (map key (live m)) - 1)])"
      unfolding n_def repl_def using i ll by (simp add: take_map [symmetric] map_update del: take_map)
    moreover have "i < length (map key (live m))" using i ll by simp
    ultimately show ?thesis using swap_remove_distinct(1) [OF d] by simp
  qed
  have cells: "\<forall>j < n. ?d ! j \<noteq> None"
  proof (intro allI impI)
    fix j assume "j < n"
    then have "dense m ! j \<noteq> None" using a n by (simp add: smap_inv_alt)
    moreover have "j < length (dense m)" using \<open>j < n\<close> n ld by simp
    ultimately show "?d ! j \<noteq> None" by (cases "j = i") simp_all
  qed
  have nthl: "\<And>j. j < n \<Longrightarrow> take n ((live m)[i := repl]) ! j = (if j = i then repl else live m ! j)"
    using n ll by (simp add: nth_list_update)
  show ?thesis
  proof (cases "sparse m")
    case None
    have "\<forall>j'<i. key (live m ! j') \<noteq> k"
    proof (intro allI impI notI)
      fix j' assume j': "j' < i" "key (live m ! j') = k"
      then have "j' = i" using key_nth_inj [OF a _ i, of j'] k i by simp
      with j' show False by simp
    qed
    with find_key_map_Some [of i "live m" k "drop (sz m) (dense m)" 0] i k ll
    have fk: "find_key (dense m) k 0 = Inr i"
      using inv_dense_split [OF a] by simp
    let ?m' = "m\<lparr>sz := n, dense := ?d\<rparr>"
    have r: "remove k m = Inr ?m'"
      using None rn wi fk n by (simp add: remove_def n_def [symmetric])
    have l': "live ?m' = take n ((live m)[i := repl])" using lv by (simp add: live_def)
    have "sparse_inv ?m'" using None by (simp add: sparse_inv_alt)
    then have "smap_inv ?m'"
      using a cells dk l' n ld None by (simp add: smap_inv_alt)
    with r l' None show ?thesis by (simp add: n_def repl_def)
  next
    case (Some tab)
    have si: "\<forall>j < sz m. unat (key (live m ! j)) < length tab
                    \<and> tab ! unat (key (live m ! j)) = Some (of_nat j)"
      using a Some by (auto simp: smap_inv_alt sparse_inv_alt)
    have "i < 65536" using i inv_sz_bound [OF a] by simp
    then have ui: "unat (of_nat i :: key_t) = i" by (rule unat_of_nat_key)
    have rk: "rd tab (unat k) = Inr (of_nat i)" using si i k by (auto simp: rd_def)
    let ?tab' = "tab[unat (key repl) := Some (of_nat i)]"
    have wt: "wr tab (unat (key repl)) (of_nat i) = Inr ?tab'"
      using si n by (simp add: wr_def repl_def)
    let ?m' = "m\<lparr>sz := n, dense := ?d, sparse := Some ?tab'\<rparr>"
    have r: "remove k m = Inr ?m'"
      using Some rn rk wi wt n ui by (simp add: remove_def n_def [symmetric])
    have l': "live ?m' = take n ((live m)[i := repl])" using lv by (simp add: live_def)
    have "\<forall>j < n. unat (key (take n ((live m)[i := repl]) ! j)) < length ?tab'
                    \<and> ?tab' ! unat (key (take n ((live m)[i := repl]) ! j)) = Some (of_nat j)"
    proof (intro allI impI)
      fix j assume j: "j < n"
      show "unat (key (take n ((live m)[i := repl]) ! j)) < length ?tab'
                    \<and> ?tab' ! unat (key (take n ((live m)[i := repl]) ! j)) = Some (of_nat j)"
      proof (cases "j = i")
        case True
        then show ?thesis using nthl [OF j] si n by (simp add: repl_def)
      next
        case False
        have "key (live m ! j) \<noteq> key (live m ! n)"
          using key_nth_inj [OF a _ n(1), of j] j n by auto
        then have "unat (key (live m ! j)) \<noteq> unat (key repl)"
          by (auto simp: repl_def dest: unsigned_word_eqI)
        then show ?thesis using False nthl [OF j] si j n by simp
      qed
    qed
    then have "sparse_inv ?m'" using l' by (simp add: sparse_inv_alt)
    moreover have "length ?tab' = sparse_ub m" "0 < sparse_ub m"
      using a Some by (simp_all add: smap_inv_alt)
    ultimately have "smap_inv ?m'"
      using cells dk l' n ld by (simp add: smap_inv_alt)
    with r l' Some show ?thesis by (simp add: n_def repl_def)
  qed
qed

lemma add_abs:
  assumes a: "smap_inv m" and nk: "smap_abs m k = None"
  shows "\<exists>m'. add k v m = Inr m' \<and> smap_inv m' \<and> smap_abs m' = (smap_abs m)(k \<mapsto> v)
            \<and> sz m' = sz m + 1
            \<and> (sparse m' = None \<longleftrightarrow> sparse m = None \<and> sz m < dense_maxsz m)"
proof -
  from nk have "k \<notin> key ` set (live m)" using smap_abs_dom [of m] by auto
  from add_inv [OF a this, of v] obtain m' where m': "add k v m = Inr m' \<and> smap_inv m'
      \<and> live m' = live m @ [\<lparr>key = k, val = v\<rparr>] \<and> sz m' = sz m + 1
      \<and> (sparse m' = None \<longleftrightarrow> sparse m = None \<and> sz m < dense_maxsz m)" ..
  then have l: "live m' = live m @ [\<lparr>key = k, val = v\<rparr>]" by simp
  have "smap_abs m' k' = ((smap_abs m)(k \<mapsto> v)) k'" for k'
    unfolding smap_abs_def l using nk [unfolded smap_abs_def]
    by (simp add: map_add_def split: option.splits)
  then have "smap_abs m' = (smap_abs m)(k \<mapsto> v)" by (rule ext)
  with m' show ?thesis by (intro exI [of _ m']) simp
qed

lemma remove_abs:
  assumes a: "smap_inv m" and hk: "smap_abs m k \<noteq> None"
  shows "\<exists>m'. remove k m = Inr m' \<and> smap_inv m' \<and> smap_abs m' = (smap_abs m)(k := None)
            \<and> sz m' = sz m - 1 \<and> (sparse m' = None \<longleftrightarrow> sparse m = None)"
proof -
  from hk obtain v where v: "smap_abs m k = Some v" by auto
  from smap_abs_SomeD [OF a v] obtain i where i: "i < sz m" "live m ! i = \<lparr>key = k, val = v\<rparr>"
    by auto
  then have ki: "key (live m ! i) = k" by simp
  from remove_inv [OF a i(1) ki] obtain m' where m': "remove k m = Inr m' \<and> smap_inv m'
      \<and> sz m' = sz m - 1
      \<and> live m' = take (sz m - 1) ((live m)[i := live m ! (sz m - 1)])
      \<and> (sparse m' = None \<longleftrightarrow> sparse m = None)" ..
  have ll: "length (live m) = sz m" using inv_live_length [OF a] .
  have dl: "distinct (live m)" using a by (simp add: smap_inv_alt distinct_map)
  have s': "set (live m') = set (live m) - {live m ! i}"
    using swap_remove_distinct(2) [OF dl, of i] i ll m' by simp
  have i': "smap_inv m'" using m' by simp
  have mem: "\<lparr>key = k', val = w\<rparr> \<in> set (live m')
               \<longleftrightarrow> \<lparr>key = k', val = w\<rparr> \<in> set (live m) \<and> (k', w) \<noteq> (k, v)" for k' w
    unfolding s' i(2) by simp
  have "smap_abs m' k' = ((smap_abs m)(k := None)) k'" for k'
  proof (cases "k' = k")
    case True
    have "smap_abs m' k \<noteq> Some w" for w
    proof
      assume "smap_abs m' k = Some w"
      then have "\<lparr>key = k, val = w\<rparr> \<in> set (live m) \<and> (k, w) \<noteq> (k, v)"
        using smap_abs_Some_iff [OF i', of k w] mem [of k w] by simp
      then show False using smap_abs_Some_iff [OF a, of k w] v by simp
    qed
    then have "smap_abs m' k = None" by (cases "smap_abs m' k") auto
    with True show ?thesis by simp
  next
    case False
    have e: "smap_abs m' k' = Some w \<longleftrightarrow> smap_abs m k' = Some w" for w
      using smap_abs_Some_iff [OF i', of k' w] smap_abs_Some_iff [OF a, of k' w] mem [of k' w] False
      by simp
    have "smap_abs m' k' = smap_abs m k'"
    proof (cases "smap_abs m k'")
      case None
      then have "smap_abs m' k' \<noteq> Some w" for w using e [of w] by simp
      then have "smap_abs m' k' = None" by (cases "smap_abs m' k'") auto
      with None show ?thesis by simp
    next
      case (Some w)
      then show ?thesis using e [of w] by simp
    qed
    with False show ?thesis by simp
  qed
  then have "smap_abs m' = (smap_abs m)(k := None)" by (rule ext)
  with m' show ?thesis by (intro exI [of _ m']) simp
qed

lemma smap_inv_empty: "smap_inv AdaptSMap_empty"
  by (simp add: smap_inv_def sparse_inv_def AdaptSMap_empty_def live_def)

lemma smap_abs_empty: "smap_abs AdaptSMap_empty = Map.empty"
  by (simp add: smap_abs_def AdaptSMap_empty_def live_def)

lemma smap_inv_clear: "smap_inv m \<Longrightarrow> smap_inv (clear m)"
  by (simp add: smap_inv_alt sparse_inv_alt clear_def live_def)

lemma smap_abs_clear: "smap_abs (clear m) = Map.empty"
  by (simp add: smap_abs_def clear_def live_def)

lemma smap_built_inv: "smap_built m A \<Longrightarrow> smap_inv m \<and> smap_abs m = A"
proof (induction rule: smap_built.induct)
  case built_empty
  show ?case by (simp add: smap_inv_empty smap_abs_empty)
next
  case (built_add m A k v m')
  then have "smap_inv m" "smap_abs m k = None" by simp_all
  from add_abs [OF this, of v] built_add show ?case by auto
next
  case (built_remove m A k m')
  then have "smap_inv m" "smap_abs m k \<noteq> None" by simp_all
  from remove_abs [OF this] built_remove show ?case by auto
next
  case (built_clear m A)
  then show ?case by (simp add: smap_inv_clear smap_abs_clear)
qed

lemma smap_built_add_all:
  "smap_built m A \<Longrightarrow> add_all kvs m = Inr m' \<Longrightarrow> distinct (map fst kvs)
     \<Longrightarrow> \<forall>k\<in>fst ` set kvs. A k = None \<Longrightarrow> smap_built m' (A ++ map_of kvs)"
proof (induction kvs arbitrary: m A)
  case Nil
  then show ?case by simp
next
  case (Cons kv kvs)
  obtain k v where kv: "kv = (k, v)" by (cases kv)
  from Cons.prems(2) kv obtain m1 where m1: "add k v m = Inr m1" "add_all kvs m1 = Inr m'"
    by (auto simp: fbind_Inr_iff)
  have b1: "smap_built m1 (A(k \<mapsto> v))"
    using Cons.prems(1,4) kv m1(1) by (intro built_add) auto
  have sb: "smap_built m' (A(k \<mapsto> v) ++ map_of kvs)"
    using Cons.prems(3,4) kv by (intro Cons.IH [OF b1 m1(2)]) auto
  have "map_of kvs k = None"
    using Cons.prems(3) kv by (simp add: map_of_eq_None_iff)
  then have e: "A(k \<mapsto> v) ++ map_of kvs = A ++ map_of (kv # kvs)"
    using kv by (auto simp: fun_eq_iff map_add_def split: option.splits)
  show ?case using sb unfolding e .
qed

lemma add_all_nine: "add_all nine_kvs AdaptSMap_empty = Inr nine_smap"
  by code_simp


lemma nine_built: "smap_built nine_smap nine_abs"
proof -
  have "smap_built nine_smap (Map.empty ++ map_of nine_kvs)"
    by (rule smap_built_add_all [OF built_empty add_all_nine]) (simp_all add: nine_kvs_def)
  then show ?thesis by (simp add: nine_abs_def)
qed

lemma remove_nine: "remove 3 nine_smap = Inr eight_smap"
  by code_simp

text \<open>
  C4. For every map built by \<^verbatim>\<open>add\<close> of absent keys and \<^verbatim>\<open>remove\<close> of present keys
  (and \<^verbatim>\<open>clear\<close>), and every key \<open>k\<close>: \<^verbatim>\<open>lookup\<close> returns a value exactly when \<open>k\<close>
  was added and not removed since, that value is the one of the latest \<^verbatim>\<open>add\<close> of
  \<open>k\<close>, and \<^verbatim>\<open>size\<close> is the number of live keys. An \<^verbatim>\<open>add\<close> of an absent key and a
  \<^verbatim>\<open>remove\<close> of a present key return: after the \<^verbatim>\<open>add\<close> the key is found with the
  added value and the size is one more, after the \<^verbatim>\<open>remove\<close> the key is not found and
  the size is one less. The results do not depend on what the tolerated read of the
  sparse table yields.
\<close>

theorem smap_lookup_live:
  "smap_built m A \<Longrightarrow>
     lookup junk m k = Inr (A k) \<and> size_smap m = card (dom A)
     \<and> (A k = None \<longrightarrow>
          (\<exists>m'. add k v m = Inr m' \<and> smap_built m' (A(k \<mapsto> v))
             \<and> lookup junk m' k = Inr (Some v) \<and> size_smap m' = size_smap m + 1))
     \<and> (A k \<noteq> None \<longrightarrow>
          (\<exists>m'. remove k m = Inr m' \<and> smap_built m' (A(k := None))
             \<and> lookup junk m' k = Inr None \<and> size_smap m' = size_smap m - 1))"
proof -
  assume b: "smap_built m A"
  from smap_built_inv [OF b] have i: "smap_inv m" and al: "smap_abs m = A" by simp_all
  have c1: "lookup junk m k = Inr (A k)" using lookup_inv [OF i, of junk k] al by simp
  have c2: "size_smap m = card (dom A)"
    using card_dom_smap_abs [OF i] al by (simp add: size_smap_def)
  have c3: "A k = None \<longrightarrow>
          (\<exists>m'. add k v m = Inr m' \<and> smap_built m' (A(k \<mapsto> v))
             \<and> lookup junk m' k = Inr (Some v) \<and> size_smap m' = size_smap m + 1)"
  proof
    assume n: "A k = None"
    then have "smap_abs m k = None" using al by simp
    from add_abs [OF i this, of v] obtain m' where m': "add k v m = Inr m' \<and> smap_inv m'
        \<and> smap_abs m' = (smap_abs m)(k \<mapsto> v) \<and> sz m' = sz m + 1
        \<and> (sparse m' = None \<longleftrightarrow> sparse m = None \<and> sz m < dense_maxsz m)" ..
    then have a: "add k v m = Inr m'" and i': "smap_inv m'"
      and al': "smap_abs m' = (smap_abs m)(k \<mapsto> v)" and s': "sz m' = sz m + 1"
      by simp_all
    have b': "smap_built m' (A(k \<mapsto> v))" using b n a by (rule built_add)
    have "lookup junk m' k = Inr (Some v)" using lookup_inv [OF i', of junk k] al' by simp
    with a b' s' show "\<exists>m'. add k v m = Inr m' \<and> smap_built m' (A(k \<mapsto> v))
             \<and> lookup junk m' k = Inr (Some v) \<and> size_smap m' = size_smap m + 1"
      by (intro exI [of _ m']) (simp add: size_smap_def)
  qed
  have c4: "A k \<noteq> None \<longrightarrow>
          (\<exists>m'. remove k m = Inr m' \<and> smap_built m' (A(k := None))
             \<and> lookup junk m' k = Inr None \<and> size_smap m' = size_smap m - 1)"
  proof
    assume n: "A k \<noteq> None"
    then have "smap_abs m k \<noteq> None" using al by simp
    from remove_abs [OF i this] obtain m' where m': "remove k m = Inr m' \<and> smap_inv m'
        \<and> smap_abs m' = (smap_abs m)(k := None) \<and> sz m' = sz m - 1
        \<and> (sparse m' = None \<longleftrightarrow> sparse m = None)" ..
    then have a: "remove k m = Inr m'" and i': "smap_inv m'"
      and al': "smap_abs m' = (smap_abs m)(k := None)" and s': "sz m' = sz m - 1"
      by simp_all
    have b': "smap_built m' (A(k := None))" using b n a by (rule built_remove)
    have "lookup junk m' k = Inr None" using lookup_inv [OF i', of junk k] al' by simp
    with a b' s' show "\<exists>m'. remove k m = Inr m' \<and> smap_built m' (A(k := None))
             \<and> lookup junk m' k = Inr None \<and> size_smap m' = size_smap m - 1"
      by (intro exI [of _ m']) (simp add: size_smap_def)
  qed
  from c1 c2 c3 c4 show ?thesis by (intro conjI)
qed

theorem smap_lookup_live_witness:
  "smap_built nine_smap nine_abs
     \<and> lookup 0 nine_smap 3 = Inr (Some 103) \<and> size_smap nine_smap = 9
     \<and> nine_abs 3 \<noteq> None
     \<and> remove 3 nine_smap = Inr eight_smap
     \<and> smap_built eight_smap (nine_abs(3 := None))
     \<and> lookup 0 eight_smap 3 = Inr None \<and> size_smap eight_smap = 8
     \<and> nine_abs 9 = None
     \<and> (\<exists>m'. add 9 109 nine_smap = Inr m' \<and> smap_built m' (nine_abs(9 \<mapsto> 109))
           \<and> lookup 0 m' 9 = Inr (Some 109) \<and> size_smap m' = 10)"
proof -
  have a: "nine_abs 3 = Some 103" "nine_abs 9 = None" by (simp_all add: nine_abs_def nine_kvs_def)
  have s: "size_smap nine_smap = 9" by (simp add: size_smap_def nine_smap_def)
  note t = smap_lookup_live [OF nine_built]
  from t [of 0 3] a have w1: "lookup 0 nine_smap 3 = Inr (Some 103)" by simp
  from t [of 0 3] a remove_nine s
  have w2: "smap_built eight_smap (nine_abs(3 := None))" "lookup 0 eight_smap 3 = Inr None"
    "size_smap eight_smap = 8" by auto
  from t [of 0 9 109] a s
  have w3: "\<exists>m'. add 9 109 nine_smap = Inr m' \<and> smap_built m' (nine_abs(9 \<mapsto> 109))
           \<and> lookup 0 m' 9 = Inr (Some 109) \<and> size_smap m' = 10" by simp
  from nine_built w1 s a remove_nine w2 w3 show ?thesis by simp
qed

text \<open>
  C5. A built map is in dense mode only while it has at most 8 elements; an \<^verbatim>\<open>add\<close> in
  dense mode switches to sparse mode exactly when the map already holds 8 elements (the
  first growth of the dense buffer); \<^verbatim>\<open>add\<close>, \<^verbatim>\<open>remove\<close> and \<^verbatim>\<open>clear\<close> never go
  back from sparse to dense mode; and in sparse mode \<open>sparse[dense[i].key] = i\<close> for
  every \<open>i\<close> below the size.
\<close>

theorem smap_mode_switch:
  "smap_built m A \<Longrightarrow>
     (sparse m = None \<longrightarrow> sz m \<le> 8)
     \<and> (A k = None \<longrightarrow>
          (\<exists>m'. add k v m = Inr m' \<and> (sparse m' = None \<longleftrightarrow> sparse m = None \<and> sz m < 8)))
     \<and> (A k \<noteq> None \<longrightarrow>
          (\<exists>m'. remove k m = Inr m' \<and> (sparse m' = None \<longleftrightarrow> sparse m = None)))
     \<and> (sparse (clear m) = None \<longleftrightarrow> sparse m = None)
     \<and> (\<forall>tab. sparse m = Some tab \<longrightarrow>
          (\<forall>i < sz m. \<exists>e. rd (dense m) i = Inr e \<and> rd tab (unat (key e)) = Inr (of_nat i)))"
proof -
  assume b: "smap_built m A"
  from smap_built_inv [OF b] have i: "smap_inv m" and al: "smap_abs m = A" by simp_all
  have d8: "sparse m = None \<longrightarrow> dense_maxsz m = 8 \<and> sz m \<le> 8"
    using i by (auto simp: smap_inv_alt)
  have c1: "sparse m = None \<longrightarrow> sz m \<le> 8" using d8 by simp
  have c2: "A k = None \<longrightarrow>
          (\<exists>m'. add k v m = Inr m' \<and> (sparse m' = None \<longleftrightarrow> sparse m = None \<and> sz m < 8))"
  proof
    assume "A k = None"
    then have "smap_abs m k = None" using al by simp
    from add_abs [OF i this, of v] obtain m' where m': "add k v m = Inr m' \<and> smap_inv m'
        \<and> smap_abs m' = (smap_abs m)(k \<mapsto> v) \<and> sz m' = sz m + 1
        \<and> (sparse m' = None \<longleftrightarrow> sparse m = None \<and> sz m < dense_maxsz m)" ..
    then have "add k v m = Inr m'"
      and "sparse m' = None \<longleftrightarrow> sparse m = None \<and> sz m < dense_maxsz m" by simp_all
    then show "\<exists>m'. add k v m = Inr m' \<and> (sparse m' = None \<longleftrightarrow> sparse m = None \<and> sz m < 8)"
      using d8 by (intro exI [of _ m']) auto
  qed
  have c3: "A k \<noteq> None \<longrightarrow>
          (\<exists>m'. remove k m = Inr m' \<and> (sparse m' = None \<longleftrightarrow> sparse m = None))"
  proof
    assume "A k \<noteq> None"
    then have "smap_abs m k \<noteq> None" using al by simp
    from remove_abs [OF i this] show
      "\<exists>m'. remove k m = Inr m' \<and> (sparse m' = None \<longleftrightarrow> sparse m = None)" by auto
  qed
  have c4: "sparse (clear m) = None \<longleftrightarrow> sparse m = None" by (simp add: clear_def)
  have c5: "\<forall>tab. sparse m = Some tab \<longrightarrow>
          (\<forall>i < sz m. \<exists>e. rd (dense m) i = Inr e \<and> rd tab (unat (key e)) = Inr (of_nat i))"
  proof (intro allI impI)
    fix tab j assume t: "sparse m = Some tab" and j: "j < sz m"
    have "rd (dense m) j = Inr (live m ! j)"
      using inv_dense_nth [OF i j] i j by (simp add: rd_def smap_inv_alt)
    moreover have "rd tab (unat (key (live m ! j))) = Inr (of_nat j)"
      using i t j by (auto simp: smap_inv_alt sparse_inv_alt rd_def)
    ultimately show "\<exists>e. rd (dense m) j = Inr e \<and> rd tab (unat (key e)) = Inr (of_nat j)"
      by blast
  qed
  from c1 c2 c3 c4 c5 show ?thesis by (intro conjI)
qed

theorem smap_mode_switch_witness:
  "smap_built nine_smap nine_abs
     \<and> nine_abs 9 = None
     \<and> (\<exists>m'. add 9 109 nine_smap = Inr m' \<and> sparse m' \<noteq> None)
     \<and> nine_abs 3 \<noteq> None
     \<and> (\<exists>m'. remove 3 nine_smap = Inr m' \<and> sparse m' \<noteq> None)
     \<and> sparse (clear nine_smap) \<noteq> None
     \<and> (\<exists>e. rd (dense nine_smap) 4 = Inr e
             \<and> rd (the (sparse nine_smap)) (unat (key e)) = Inr 4)"
proof -
  have s: "sparse nine_smap \<noteq> None" "sz nine_smap = 9" by (simp_all add: nine_smap_def)
  then obtain tab where tab: "sparse nine_smap = Some tab" by auto
  have a9: "nine_abs 9 = None" and a3: "nine_abs 3 \<noteq> None"
    by (simp_all add: nine_abs_def nine_kvs_def)
  from smap_mode_switch [OF nine_built, of 9 109] a9 s
  have w1: "\<exists>m'. add 9 109 nine_smap = Inr m' \<and> sparse m' \<noteq> None" by auto
  from smap_mode_switch [OF nine_built, of 3] a3 s
  have w2: "\<exists>m'. remove 3 nine_smap = Inr m' \<and> sparse m' \<noteq> None" by auto
  from smap_mode_switch [OF nine_built, of 3] s
  have w3: "sparse (clear nine_smap) \<noteq> None" by auto
  have "\<forall>tab. sparse nine_smap = Some tab \<longrightarrow>
          (\<forall>i < sz nine_smap. \<exists>e. rd (dense nine_smap) i = Inr e
              \<and> rd tab (unat (key e)) = Inr (of_nat i))"
    by (rule smap_mode_switch [OF nine_built, of 3 0, THEN conjunct2, THEN conjunct2,
          THEN conjunct2, THEN conjunct2])
  then have "\<forall>i < sz nine_smap. \<exists>e. rd (dense nine_smap) i = Inr e
              \<and> rd tab (unat (key e)) = Inr (of_nat i)"
    using tab by blast
  then have "\<exists>e. rd (dense nine_smap) 4 = Inr e \<and> rd tab (unat (key e)) = Inr (of_nat 4)"
    using s(2) by (elim allE [of _ 4]) simp
  then have w4: "\<exists>e. rd (dense nine_smap) 4 = Inr e
             \<and> rd (the (sparse nine_smap)) (unat (key e)) = Inr 4"
    using tab by simp
  from nine_built a9 w1 a3 w2 w3 w4 show ?thesis by (intro conjI)
qed

text \<open>
  C6, as stated, fails: in the sparse-mode map of the nine keys 0 to 8 the table has 16
  cells, so \<^verbatim>\<open>elem(100)\<close> and \<^verbatim>\<open>lookup(100)\<close> read \<^verbatim>\<open>sparse[100]\<close> outside the
  allocation, and \<^verbatim>\<open>sparse[9]\<close> is a cell that was never written.
\<close>

theorem sparse_read_counterexample:
  "smap_built nine_smap nine_abs \<and> sparse nine_smap \<noteq> None
     \<and> \<not> sparse_read_defined nine_smap 100 \<and> \<not> sparse_read_defined nine_smap 9"
proof -
  have "sparse nine_smap \<noteq> None"
    "\<not> sparse_read_defined nine_smap 100" "\<not> sparse_read_defined nine_smap 9"
    by (simp_all add: nine_smap_def sparse_read_defined_def)
  with nine_built show ?thesis by simp
qed

text \<open>
  C6, amended. In sparse mode, for every key \<open>k\<close>, \<^verbatim>\<open>elem\<close> and \<^verbatim>\<open>lookup\<close> report
  presence and absence correctly whatever value the read of \<^verbatim>\<open>sparse[k]\<close> yields; that
  read is of an allocated, written cell whenever \<open>k\<close> is in the map; and the read of
  \<^verbatim>\<open>dense[idx]\<close> behind the test \<^verbatim>\<open>idx < sz\<close> is always of a written cell in range.
\<close>

theorem sparse_read_tolerated:
  "smap_built m A \<Longrightarrow> sparse m \<noteq> None \<Longrightarrow>
     elem junk m k = Inr (A k \<noteq> None) \<and> lookup junk m k = Inr (A k)
     \<and> (A k \<noteq> None \<longrightarrow> sparse_read_defined m k)
     \<and> (\<forall>idx < sz m. \<exists>e. rd (dense m) idx = Inr e)"
proof -
  assume b: "smap_built m A" and s: "sparse m \<noteq> None"
  from smap_built_inv [OF b] have i: "smap_inv m" and al: "smap_abs m = A" by simp_all
  have c1: "elem junk m k = Inr (A k \<noteq> None)"
    using elem_inv [OF i, of junk k] al by (auto simp: dom_def)
  have c2: "lookup junk m k = Inr (A k)" using lookup_inv [OF i, of junk k] al by simp
  have c3: "A k \<noteq> None \<longrightarrow> sparse_read_defined m k"
  proof
    assume "A k \<noteq> None"
    then obtain v where "smap_abs m k = Some v" using al by auto
    from smap_abs_SomeD [OF i this] obtain j where j: "j < sz m" "key (live m ! j) = k" by auto
    from s obtain tab where "sparse m = Some tab" by auto
    with i j show "sparse_read_defined m k"
      by (auto simp: smap_inv_alt sparse_inv_alt sparse_read_defined_def)
  qed
  have c4: "\<forall>idx < sz m. \<exists>e. rd (dense m) idx = Inr e"
    using inv_dense_nth [OF i] i by (auto simp: rd_def smap_inv_alt)
  from c1 c2 c3 c4 show ?thesis by (intro conjI)
qed

theorem sparse_read_tolerated_witness:
  "smap_built nine_smap nine_abs \<and> sparse nine_smap \<noteq> None
     \<and> elem 7 nine_smap 100 = Inr False \<and> lookup 7 nine_smap 100 = Inr None
     \<and> elem 7 nine_smap 3 = Inr True \<and> lookup 7 nine_smap 3 = Inr (Some 103)
     \<and> sparse_read_defined nine_smap 3"
proof -
  have s: "sparse nine_smap \<noteq> None" by (simp add: nine_smap_def)
  have a: "nine_abs 100 = None" "nine_abs 3 = Some 103"
    by (simp_all add: nine_abs_def nine_kvs_def)
  from sparse_read_tolerated [OF nine_built s, of 7 100] a
  have w1: "elem 7 nine_smap 100 = Inr False" "lookup 7 nine_smap 100 = Inr None" by simp_all
  from sparse_read_tolerated [OF nine_built s, of 7 3] a
  have w2: "elem 7 nine_smap 3 = Inr True" "lookup 7 nine_smap 3 = Inr (Some 103)"
    "sparse_read_defined nine_smap 3" by simp_all
  from nine_built s w1 w2 show ?thesis by (intro conjI)
qed

section \<open>Proofs: AdaptGraph scenarios\<close>

lemma two_vertex_built: "graph_built N two_vertex_graph Map.empty" if "2 \<le> N"
proof -
  let ?g1 = "\<lparr>preds = [AdaptSMap_empty], succs = [AdaptSMap_empty],
      ws = [], edge_count = 0, is_free = [False], free_id = [], free_widx = []\<rparr> :: int AdaptGraph"
  have 1: "new_vertex (AdaptGraph_empty :: int AdaptGraph) = Inr (0, ?g1)"
    by (simp add: new_vertex_def AdaptGraph_empty_def)
  have 2: "new_vertex ?g1 = Inr (1, two_vertex_graph)"
    by (simp add: new_vertex_def two_vertex_graph_def)
  have "graph_built N ?g1 Map.empty"
    using that by (intro g_new_vertex [OF g_empty _ 1]) (simp add: size_graph_def AdaptGraph_empty_def)
  then show ?thesis
    using that by (intro g_new_vertex [OF _ _ 2]) (simp_all add: size_graph_def)
qed

lemma add_one_elt: "add k v AdaptSMap_empty = Inr (one_elt k v)"
  by (simp add: add_def add_index_def AdaptSMap_empty_def one_elt_def wr_def eval_nat_numeral)

lemma in_edge_built: "graph_built N in_edge_graph [(1, 0) \<mapsto> 5]" if "2 \<le> N"
proof -
  have "add_edge 1 5 0 two_vertex_graph = Inr in_edge_graph"
    by (simp add: add_edge_def alloc_widx_def two_vertex_graph_def in_edge_graph_def vec_at_def
        key_of_def add_one_elt)
  from g_add_edge [OF two_vertex_built [OF that] _ _ _ this]
  show ?thesis by (simp add: size_graph_def two_vertex_graph_def)
qed

lemma out_edge_built: "graph_built N out_edge_graph [(0, 1) \<mapsto> 5]" if "2 \<le> N"
proof -
  have "add_edge 0 5 1 two_vertex_graph = Inr out_edge_graph"
    by (simp add: add_edge_def alloc_widx_def two_vertex_graph_def out_edge_graph_def vec_at_def
        key_of_def add_one_elt)
  from g_add_edge [OF two_vertex_built [OF that] _ _ _ this]
  show ?thesis by (simp add: size_graph_def two_vertex_graph_def)
qed

text \<open>
  C2, at the failing input. \<^verbatim>\<open>forget(0)\<close> on the graph with the single edge \<open>1 \<rightarrow> 0\<close>
  leaves \<^verbatim>\<open>free_widx\<close> empty: the weight slot of the predecessor edge is not freed. On
  the graph with the single edge \<open>0 \<rightarrow> 1\<close> the slot is freed. In the churn scenario
  the weight vector ends with 40 slots when the 20 edges go into vertex 0, and with 20
  when they leave it.
\<close>

theorem forget_leaks_pred_slot:
  "map_sum id free_widx (forget 0 in_edge_graph) = Inr []
     \<and> map_sum id free_widx (forget 0 out_edge_graph) = Inr [0]
     \<and> map_sum id (length \<circ> ws) churn_in = Inr 40
     \<and> map_sum id (length \<circ> ws) churn_out = Inr 20"
  by code_simp

text \<open>
  C9. \<^verbatim>\<open>forget(v)\<close> on a vertex with \<^verbatim>\<open>is_free[v]\<close> set returns at once: the graph,
  with its maps, weights, edge count and both free lists, is unchanged.
\<close>

theorem forget_free_noop:
  "v < length (is_free g) \<Longrightarrow> is_free g ! v \<Longrightarrow> forget v g = Inr g"
  by (simp add: forget_def vec_at_def)


lemma forget_out_edge: "forget 0 out_edge_graph = Inr forgotten_graph"
  by code_simp

theorem forget_free_noop_witness:
  "0 < length (is_free forgotten_graph) \<and> is_free forgotten_graph ! 0
     \<and> forget 0 forgotten_graph = Inr forgotten_graph"
  using forget_free_noop [of 0 forgotten_graph] by (simp add: forgotten_graph_def)

section \<open>Proofs: the AdaptGraph invariant\<close>

lemma unat_key_of: "v < 65536 \<Longrightarrow> unat (key_of v) = v"
  unfolding key_of_def by (rule unat_of_nat_key)

lemma key_of_unat: "key_of (unat k) = k"
  by (simp add: key_of_def)

lemma key_of_inj: "s < 65536 \<Longrightarrow> s' < 65536 \<Longrightarrow> key_of s = key_of s' \<longleftrightarrow> s = s'"
  by (metis unat_key_of)

lemma alloc_widx_spec:
  assumes sl: "g_slots g" and we: "g_weights g E"
  shows "\<exists>idx g1. alloc_widx w g = Inr (idx, g1)
           \<and> succs g1 = succs g \<and> preds g1 = preds g \<and> is_free g1 = is_free g
           \<and> free_id g1 = free_id g \<and> edge_count g1 = edge_count g
           \<and> idx < length (ws g1) \<and> ws g1 ! idx = w \<and> length (ws g) \<le> length (ws g1)
           \<and> (\<forall>i < length (ws g). i \<noteq> idx \<longrightarrow> ws g1 ! i = ws g ! i)
           \<and> (\<forall>s < size_graph g. \<forall>d < size_graph g. sidx g s d \<noteq> Some idx)
           \<and> distinct (free_widx g1) \<and> idx \<notin> set (free_widx g1)
           \<and> set (free_widx g1) \<subseteq> set (free_widx g)"
proof (cases "free_widx g = []")
  case True
  let ?g1 = "g\<lparr>ws := ws g @ [w]\<rparr>"
  have r: "alloc_widx w g = Inr (length (ws g), ?g1)" using True by (simp add: alloc_widx_def)
  have "sidx g s d \<noteq> Some (length (ws g))" if "s < size_graph g" "d < size_graph g" for s d
  proof
    assume "sidx g s d = Some (length (ws g))"
    with we that have "length (ws g) < length (ws g)" unfolding g_weights_def by blast
    then show False by simp
  qed
  then show ?thesis using r True by (simp add: nth_append)
next
  case False
  define idx where "idx = last (free_widx g)"
  have m: "idx \<in> set (free_widx g)" using False by (simp add: idx_def)
  have b: "idx < length (ws g)"
    and u: "\<forall>s < size_graph g. \<forall>d < size_graph g. sidx g s d \<noteq> Some idx"
    using sl m unfolding g_slots_def by blast+
  let ?g1 = "g\<lparr>free_widx := butlast (free_widx g), ws := (ws g)[idx := w]\<rparr>"
  have r: "alloc_widx w g = Inr (idx, ?g1)"
    using False b by (simp add: alloc_widx_def idx_def [symmetric] Let_def)
  have d: "distinct (free_widx g)" using sl by (simp add: g_slots_def)
  have "free_widx g = butlast (free_widx g) @ [idx]" using False by (simp add: idx_def)
  with d have "distinct (butlast (free_widx g) @ [idx])" by simp
  then have "idx \<notin> set (butlast (free_widx g))" by simp
  moreover have "set (butlast (free_widx g)) \<subseteq> set (free_widx g)"
    by (auto dest: in_set_butlastD)
  ultimately show ?thesis using r b u d by (simp add: distinct_butlast)
qed

lemma add_edge_inv:
  assumes inv: "graph_inv g E" and s: "s < size_graph g" and d: "d < size_graph g"
    and n: "E (s, d) = None"
  shows "\<exists>g'. add_edge s w d g = Inr g' \<and> graph_inv g' (E((s, d) \<mapsto> w))
           \<and> size_graph g' = size_graph g \<and> is_free g' = is_free g \<and> free_id g' = free_id g
           \<and> edge_count g' = edge_count g + 1"
proof -
  from inv have sh: "g_shape g" and sy: "g_sym g" and we: "g_weights g E" and sl: "g_slots g"
    and fr: "g_free g" by (simp_all add: graph_inv_def)
  define N where "N = size_graph g"
  have N: "length (succs g) = N" "length (preds g) = N" "length (is_free g) = N" "N \<le> 65536"
    using sh by (simp_all add: g_shape_def N_def size_graph_def)
  have sN: "s < N" and dN: "d < N" using s d by (simp_all add: N_def)
  have kinj: "key_of a = key_of b \<longleftrightarrow> a = b" if "a < N" "b < N" for a b
    using that N(4) by (intro key_of_inj) simp_all
  have s0: "sidx g s d = None" using we s d n unfolding g_weights_def by blast
  then have p0: "pidx g d s = None" using sy s d unfolding g_sym_def by simp
  have ivs: "smap_inv (succs g ! s)" and ivp: "smap_inv (preds g ! d)"
    using sh s d unfolding g_shape_def by blast+
  from alloc_widx_spec [OF sl we, of w] obtain idx g1 where al:
    "alloc_widx w g = Inr (idx, g1)" "succs g1 = succs g" "preds g1 = preds g"
    "is_free g1 = is_free g" "free_id g1 = free_id g" "edge_count g1 = edge_count g"
    "idx < length (ws g1)" "ws g1 ! idx = w" "length (ws g) \<le> length (ws g1)"
    "\<forall>i < length (ws g). i \<noteq> idx \<longrightarrow> ws g1 ! i = ws g ! i"
    "\<forall>s < size_graph g. \<forall>d < size_graph g. sidx g s d \<noteq> Some idx"
    "distinct (free_widx g1)" "idx \<notin> set (free_widx g1)"
    "set (free_widx g1) \<subseteq> set (free_widx g)"
    by blast
  from add_abs [OF ivs, of "key_of d" idx] s0 obtain m' where m':
    "add (key_of d) idx (succs g ! s) = Inr m'" "smap_inv m'"
    "smap_abs m' = (smap_abs (succs g ! s))(key_of d \<mapsto> idx)"
    by (auto simp: sidx_def)
  from add_abs [OF ivp, of "key_of s" idx] p0 obtain p' where p':
    "add (key_of s) idx (preds g ! d) = Inr p'" "smap_inv p'"
    "smap_abs p' = (smap_abs (preds g ! d))(key_of s \<mapsto> idx)"
    by (auto simp: pidx_def)
  define g' where "g' = g1\<lparr>succs := (succs g)[s := m'], preds := (preds g)[d := p'],
                            edge_count := edge_count g + 1\<rparr>"
  have r: "add_edge s w d g = Inr g'"
    using al(1-3,6) m'(1) p'(1) sN dN N
    by (simp add: add_edge_def vec_at_def g'_def)
  have sz: "size_graph g' = N" "length (preds g') = N" "length (is_free g') = N"
    using N al(4) by (simp_all add: g'_def size_graph_def)
  have SI: "sidx g' a b = (if a = s \<and> b = d then Some idx else sidx g a b)"
    if "a < N" "b < N" for a b
    using that N sN dN m'(3) kinj [of b d]
    by (cases "a = s") (auto simp: sidx_def g'_def nth_list_update)
  have PI: "pidx g' b a = (if a = s \<and> b = d then Some idx else pidx g b a)"
    if "a < N" "b < N" for a b
    using that N sN dN p'(3) kinj [of a s]
    by (cases "b = d") (auto simp: pidx_def g'_def nth_list_update)
  have inv_s: "smap_inv (succs g ! v)" and inv_p: "smap_inv (preds g ! v)" if "v < N" for v
    using sh that unfolding g_shape_def N_def by blast+
  have rng_s: "unat k < N" if "v < N" "smap_abs (succs g ! v) k \<noteq> None" for v k
    using sh that unfolding g_shape_def N_def by blast
  have rng_p: "unat k < N" if "v < N" "smap_abs (preds g ! v) k \<noteq> None" for v k
    using sh that unfolding g_shape_def N_def by blast
  have su: "succs g' ! v = (if v = s then m' else succs g ! v)" if "v < N" for v
    using that N(1) by (simp add: g'_def nth_list_update)
  have pu: "preds g' ! v = (if v = d then p' else preds g ! v)" if "v < N" for v
    using that N(2) by (simp add: g'_def nth_list_update)
  have G1: "g_shape g'"
    unfolding g_shape_def sz
  proof (intro conjI allI impI)
    show "N = N" "N = N" "N \<le> 65536" using N by simp_all
  next
    fix v assume v: "v < N"
    show "smap_inv (succs g' ! v)" using su [OF v] inv_s [OF v] m'(2) by simp
  next
    fix v assume v: "v < N"
    show "smap_inv (preds g' ! v)" using pu [OF v] inv_p [OF v] p'(2) by simp
  next
    fix v k assume v: "v < N" and k: "smap_abs (succs g' ! v) k \<noteq> None"
    show "unat k < N"
    proof (cases "v = s \<and> k = key_of d")
      case True
      then show ?thesis using dN N(4) unat_key_of [of d] by simp
    next
      case False
      then have "smap_abs (succs g' ! v) k = smap_abs (succs g ! v) k"
        using su [OF v] m'(3) by (cases "v = s") simp_all
      with k rng_s [OF v] show ?thesis by simp
    qed
  next
    fix v k assume v: "v < N" and k: "smap_abs (preds g' ! v) k \<noteq> None"
    show "unat k < N"
    proof (cases "v = d \<and> k = key_of s")
      case True
      then show ?thesis using sN N(4) unat_key_of [of s] by simp
    next
      case False
      then have "smap_abs (preds g' ! v) k = smap_abs (preds g ! v) k"
        using pu [OF v] p'(3) by (cases "v = d") simp_all
      with k rng_p [OF v] show ?thesis by simp
    qed
  qed
  have G2: "g_sym g'"
    unfolding g_sym_def sz
  proof (intro allI impI)
    fix a b assume "a < N" "b < N"
    then show "pidx g' b a = sidx g' a b"
      using SI [of a b] PI [of a b] sy unfolding g_sym_def N_def by simp
  qed
  have we_dom: "a < N \<and> b < N" if "E (a, b) \<noteq> None" for a b
    using we that unfolding g_weights_def N_def by blast
  have we_none: "(E (a, b) = None) = (sidx g a b = None)" if "a < N" "b < N" for a b
    using we that unfolding g_weights_def N_def by blast
  have we_some: "i < length (ws g) \<and> E (a, b) = Some (ws g ! i)"
    if "a < N" "b < N" "sidx g a b = Some i" for a b i
    using we that unfolding g_weights_def N_def by blast
  have nidx: "sidx g x y \<noteq> Some idx" if "x < N" "y < N" for x y
    using al(11) that unfolding N_def by blast
  have sl_inj: "a = a' \<and> b = b'"
    if "a < N" "b < N" "a' < N" "b' < N" "sidx g a b = Some i" "sidx g a' b' = Some i"
    for a b a' b' i
    using sl that unfolding g_slots_def N_def by blast
  have sl_free: "i < length (ws g)" if "i \<in> set (free_widx g)" for i
    using sl that unfolding g_slots_def by blast
  have sl_unused: "sidx g a b \<noteq> Some i" if "i \<in> set (free_widx g)" "a < N" "b < N" for i a b
    using sl that unfolding g_slots_def N_def by blast
  have wsold: "ws g' ! i = ws g ! i" if "sidx g a b = Some i" "a < N" "b < N" for a b i
  proof -
    have "i < length (ws g)" using we_some [OF that(2,3,1)] by simp
    moreover have "i \<noteq> idx" using nidx [OF that(2,3)] that(1) by auto
    ultimately show ?thesis using al(10) by (simp add: g'_def)
  qed
  have W1: "\<forall>a b. (E((s, d) \<mapsto> w)) (a, b) \<noteq> None \<longrightarrow> a < N \<and> b < N"
  proof (intro allI impI)
    fix a b assume "(E((s, d) \<mapsto> w)) (a, b) \<noteq> None"
    then show "a < N \<and> b < N"
      using we_dom [of a b] sN dN by (cases "a = s \<and> b = d") auto
  qed
  have W2: "\<forall>a < N. \<forall>b < N.
           ((E((s, d) \<mapsto> w)) (a, b) = None \<longleftrightarrow> sidx g' a b = None)
           \<and> (\<forall>i. sidx g' a b = Some i \<longrightarrow>
                  i < length (ws g') \<and> (E((s, d) \<mapsto> w)) (a, b) = Some (ws g' ! i))"
  proof (intro allI impI)
    fix a b assume ab: "a < N" "b < N"
    have A: "((E((s, d) \<mapsto> w)) (a, b) = None) = (sidx g' a b = None)"
      using SI [OF ab] we_none [OF ab] by (cases "a = s \<and> b = d") auto
    have B: "i < length (ws g') \<and> (E((s, d) \<mapsto> w)) (a, b) = Some (ws g' ! i)"
      if i: "sidx g' a b = Some i" for i
    proof (cases "a = s \<and> b = d")
      case True
      then have "i = idx" using i SI [OF ab] by (auto split: if_splits)
      then show ?thesis using True al(7,8) by (simp add: g'_def)
    next
      case False
      then have o: "sidx g a b = Some i" using i SI [OF ab] by (auto split: if_splits)
      have "i < length (ws g) \<and> E (a, b) = Some (ws g ! i)" using we_some [OF ab o] .
      moreover have "length (ws g') = length (ws g1)" by (simp add: g'_def)
      ultimately show ?thesis using False wsold [OF o ab] al(9) by auto
    qed
    show "((E((s, d) \<mapsto> w)) (a, b) = None \<longleftrightarrow> sidx g' a b = None)
           \<and> (\<forall>i. sidx g' a b = Some i \<longrightarrow>
                  i < length (ws g') \<and> (E((s, d) \<mapsto> w)) (a, b) = Some (ws g' ! i))"
      using A B by blast
  qed
  have G3: "g_weights g' (E((s, d) \<mapsto> w))"
    unfolding g_weights_def sz using W1 W2 by (rule conjI)
  have S1: "\<forall>a < N. \<forall>b < N. \<forall>a' < N. \<forall>b' < N. \<forall>i.
         sidx g' a b = Some i \<longrightarrow> sidx g' a' b' = Some i \<longrightarrow> a = a' \<and> b = b'"
  proof (intro allI impI)
    fix a b a' b' i
    assume h: "a < N" "b < N" "a' < N" "b' < N" "sidx g' a b = Some i" "sidx g' a' b' = Some i"
    show "a = a' \<and> b = b'"
      using h(5,6) SI [OF h(1,2)] SI [OF h(3,4)] nidx [OF h(1,2)] nidx [OF h(3,4)]
        sl_inj [OF h(1-4), of i]
      by (auto split: if_splits)
  qed
  have S2: "distinct (free_widx g')" using al(12) by (simp add: g'_def)
  have S3: "\<forall>i \<in> set (free_widx g'). i < length (ws g')
           \<and> (\<forall>a < N. \<forall>b < N. sidx g' a b \<noteq> Some i)"
  proof (intro ballI conjI allI impI)
    fix i assume i: "i \<in> set (free_widx g')"
    then have io: "i \<in> set (free_widx g)" using al(14) by (auto simp: g'_def)
    show "i < length (ws g')" using sl_free [OF io] al(9) by (simp add: g'_def)
  next
    fix i a b assume i: "i \<in> set (free_widx g')" and ab: "a < N" "b < N"
    then have io: "i \<in> set (free_widx g)" and ni: "i \<noteq> idx"
      using al(13,14) by (auto simp: g'_def)
    show "sidx g' a b \<noteq> Some i" using SI [OF ab] ni sl_unused [OF io ab] by auto
  qed
  have G4: "g_slots g'"
    unfolding g_slots_def sz using S1 S2 S3 by (intro conjI)
  have G5: "g_free g'"
    using fr al(4,5) unfolding g_free_def by (simp add: g'_def size_graph_def)
  have "graph_inv g' (E((s, d) \<mapsto> w))"
    using G1 G2 G3 G4 G5 by (simp add: graph_inv_def)
  moreover have "size_graph g' = size_graph g" using sz(1) by (simp add: N_def)
  moreover have "is_free g' = is_free g" "free_id g' = free_id g"
    "edge_count g' = edge_count g + 1"
    using al(4,5) by (simp_all add: g'_def)
  ultimately show ?thesis using r by blast
qed

lemma graph_inv_lookup:
  assumes inv: "graph_inv g E" and s: "s < size_graph g" and d: "d < size_graph g"
  shows "vec_at (succs g) s = Inr (succs g ! s)"
    and "lookup junk (succs g ! s) (key_of d) = Inr (sidx g s d)"
    and "E (s, d) = None \<longleftrightarrow> sidx g s d = None"
    and "sidx g s d = Some i \<Longrightarrow> i < length (ws g) \<and> E (s, d) = Some (ws g ! i)"
proof -
  from inv have sh: "g_shape g" and we: "g_weights g E" by (simp_all add: graph_inv_def)
  show "vec_at (succs g) s = Inr (succs g ! s)"
    using s by (simp add: vec_at_def size_graph_def)
  have "smap_inv (succs g ! s)" using sh s unfolding g_shape_def by blast
  then show "lookup junk (succs g ! s) (key_of d) = Inr (sidx g s d)"
    by (simp add: lookup_inv sidx_def)
  show "E (s, d) = None \<longleftrightarrow> sidx g s d = None"
    using we s d unfolding g_weights_def by blast
  show "sidx g s d = Some i \<Longrightarrow> i < length (ws g) \<and> E (s, d) = Some (ws g ! i)"
    using we s d unfolding g_weights_def by blast
qed

lemma ws_update_inv:
  assumes inv: "graph_inv g E" and s: "s < size_graph g" and d: "d < size_graph g"
    and i: "sidx g s d = Some i"
  shows "graph_inv (g\<lparr>ws := (ws g)[i := x]\<rparr>) (E((s, d) \<mapsto> x))"
proof -
  from inv have sh: "g_shape g" and sy: "g_sym g" and we: "g_weights g E" and sl: "g_slots g"
    and fr: "g_free g" by (simp_all add: graph_inv_def)
  define g' where "g' = g\<lparr>ws := (ws g)[i := x]\<rparr>"
  have sz: "size_graph g' = size_graph g" by (simp add: g'_def size_graph_def)
  have SI: "sidx g' a b = sidx g a b" for a b by (simp add: sidx_def g'_def)
  have PI: "pidx g' a b = pidx g a b" for a b by (simp add: pidx_def g'_def)
  have il: "i < length (ws g)" using graph_inv_lookup(4) [OF inv s d i] by simp
  have G1: "g_shape g'" using sh by (simp add: g_shape_def g'_def size_graph_def)
  have G2: "g_sym g'" using sy unfolding g_sym_def sz SI PI .
  have G4: "g_slots g'" using sl unfolding g_slots_def sz SI by (simp add: g'_def)
  have G5: "g_free g'" using fr unfolding g_free_def sz by (simp add: g'_def)
  have sl_inj: "a = a' \<and> b = b'"
    if "a < size_graph g" "b < size_graph g" "a' < size_graph g" "b' < size_graph g"
      "sidx g a b = Some j" "sidx g a' b' = Some j"
    for a b a' b' j
    using sl that unfolding g_slots_def by blast
  have W1: "\<forall>a b. (E((s, d) \<mapsto> x)) (a, b) \<noteq> None \<longrightarrow> a < size_graph g \<and> b < size_graph g"
  proof (intro allI impI)
    fix a b assume "(E((s, d) \<mapsto> x)) (a, b) \<noteq> None"
    moreover have "E (a, b) \<noteq> None \<Longrightarrow> a < size_graph g \<and> b < size_graph g"
      using we unfolding g_weights_def by blast
    ultimately show "a < size_graph g \<and> b < size_graph g"
      using s d by (cases "a = s \<and> b = d") auto
  qed
  have W2: "\<forall>a < size_graph g. \<forall>b < size_graph g.
           ((E((s, d) \<mapsto> x)) (a, b) = None \<longleftrightarrow> sidx g a b = None)
           \<and> (\<forall>j. sidx g a b = Some j \<longrightarrow>
                  j < length (ws g') \<and> (E((s, d) \<mapsto> x)) (a, b) = Some (ws g' ! j))"
  proof (intro allI impI)
    fix a b assume ab: "a < size_graph g" "b < size_graph g"
    have A: "((E((s, d) \<mapsto> x)) (a, b) = None) = (sidx g a b = None)"
      using graph_inv_lookup(3) [OF inv ab] i by (cases "a = s \<and> b = d") auto
    have B: "j < length (ws g') \<and> (E((s, d) \<mapsto> x)) (a, b) = Some (ws g' ! j)"
      if j: "sidx g a b = Some j" for j
    proof (cases "a = s \<and> b = d")
      case True
      then have "j = i" using i j by simp
      then show ?thesis using True il by (simp add: g'_def)
    next
      case False
      have "j \<noteq> i" using sl_inj [OF ab s d j] i False by auto
      moreover have "j < length (ws g) \<and> E (a, b) = Some (ws g ! j)"
        using graph_inv_lookup(4) [OF inv ab j] .
      ultimately show ?thesis using False by (auto simp: g'_def)
    qed
    show "((E((s, d) \<mapsto> x)) (a, b) = None \<longleftrightarrow> sidx g a b = None)
           \<and> (\<forall>j. sidx g a b = Some j \<longrightarrow>
                  j < length (ws g') \<and> (E((s, d) \<mapsto> x)) (a, b) = Some (ws g' ! j))"
      using A B by blast
  qed
  have G3: "g_weights g' (E((s, d) \<mapsto> x))"
    unfolding g_weights_def sz SI using W1 W2 by (rule conjI)
  show ?thesis using G1 G2 G3 G4 G5 unfolding g'_def [symmetric] by (simp add: graph_inv_def)
qed

lemma update_edge_inv:
  assumes inv: "graph_inv g E" and s: "s < size_graph g" and d: "d < size_graph g"
  shows "\<exists>g'. update_edge junk s w d g = Inr g'
           \<and> graph_inv g' (E((s, d) \<mapsto> (case E (s, d) of None \<Rightarrow> w | Some w0 \<Rightarrow> min w0 w)))
           \<and> size_graph g' = size_graph g \<and> is_free g' = is_free g \<and> free_id g' = free_id g
           \<and> edge_count g' = (if E (s, d) = None then edge_count g + 1 else edge_count g)"
proof (cases "sidx g s d")
  case None
  then have n: "E (s, d) = None" using graph_inv_lookup(3) [OF inv s d] by simp
  have "update_edge junk s w d g = add_edge s w d g"
    using graph_inv_lookup(1) [OF inv s d] graph_inv_lookup(2) [OF inv s d, of junk] None by (simp add: update_edge_def)
  then show ?thesis using add_edge_inv [OF inv s d n, of w] n by auto
next
  case (Some i)
  then have i: "i < length (ws g)" "E (s, d) = Some (ws g ! i)"
    using graph_inv_lookup(4) [OF inv s d] by simp_all
  have "update_edge junk s w d g = Inr (g\<lparr>ws := (ws g)[i := min (ws g ! i) w]\<rparr>)"
    using graph_inv_lookup(1) [OF inv s d] graph_inv_lookup(2) [OF inv s d, of junk] Some i(1) by (simp add: update_edge_def)
  then show ?thesis using ws_update_inv [OF inv s d Some, of "min (ws g ! i) w"] i(2)
    by (simp add: size_graph_def)
qed

lemma set_edge_inv:
  assumes inv: "graph_inv g E" and s: "s < size_graph g" and d: "d < size_graph g"
  shows "\<exists>g'. set_edge junk s w d g = Inr g' \<and> graph_inv g' (E((s, d) \<mapsto> w))
           \<and> size_graph g' = size_graph g \<and> is_free g' = is_free g \<and> free_id g' = free_id g
           \<and> edge_count g' = (if E (s, d) = None then edge_count g + 1 else edge_count g)"
proof (cases "sidx g s d")
  case None
  then have n: "E (s, d) = None" using graph_inv_lookup(3) [OF inv s d] by simp
  have "set_edge junk s w d g = add_edge s w d g"
    using graph_inv_lookup(1) [OF inv s d] graph_inv_lookup(2) [OF inv s d, of junk] None by (simp add: set_edge_def)
  then show ?thesis using add_edge_inv [OF inv s d n, of w] n by auto
next
  case (Some i)
  then have i: "i < length (ws g)" "E (s, d) = Some (ws g ! i)"
    using graph_inv_lookup(4) [OF inv s d] by simp_all
  have "set_edge junk s w d g = Inr (g\<lparr>ws := (ws g)[i := w]\<rparr>)"
    using graph_inv_lookup(1) [OF inv s d] graph_inv_lookup(2) [OF inv s d, of junk] Some i(1) by (simp add: set_edge_def)
  then show ?thesis using ws_update_inv [OF inv s d Some, of w] i(2)
    by (simp add: size_graph_def)
qed

lemma new_vertex_pop_inv:
  assumes inv: "graph_inv g E" and False: "free_id g \<noteq> []"
  shows "\<exists>v g'. new_vertex g = Inr (v, g') \<and> graph_inv g' E \<and> v < size_graph g'
           \<and> is_free g' ! v = False
           \<and> size_graph g' = size_graph g \<and> v = last (free_id g)"
proof -
  from inv have sh: "g_shape g" and sy: "g_sym g" and we: "g_weights g E" and sl: "g_slots g"
    and fr: "g_free g" by (simp_all add: graph_inv_def)
  define N where "N = size_graph g"
  have N: "length (succs g) = N" "length (preds g) = N" "length (is_free g) = N" "N \<le> 65536"
    using sh by (simp_all add: g_shape_def N_def size_graph_def)
  define v where "v = last (free_id g)"
  define g' where "g' = g\<lparr>free_id := butlast (free_id g), is_free := (is_free g)[v := False]\<rparr>"
  have vm: "v \<in> set (free_id g)" using False by (simp add: v_def)
  then have vN: "v < N" using fr unfolding g_free_def N_def by blast
  have r: "new_vertex g = Inr (v, g')"
    using False vN N by (simp add: new_vertex_def v_def [symmetric] g'_def Let_def)
  have sz: "size_graph g' = size_graph g" by (simp add: g'_def size_graph_def)
  have SI: "sidx g' a b = sidx g a b" for a b by (simp add: sidx_def g'_def)
  have PI: "pidx g' a b = pidx g a b" for a b by (simp add: pidx_def g'_def)
  have G1: "g_shape g'" using sh by (simp add: g_shape_def g'_def size_graph_def)
  have G2: "g_sym g'" using sy unfolding g_sym_def sz SI PI .
  have wsg: "ws g' = ws g" "free_widx g' = free_widx g" by (simp_all add: g'_def)
  have G3: "g_weights g' E" using we unfolding g_weights_def sz SI wsg .
  have G4: "g_slots g'" using sl unfolding g_slots_def sz SI wsg .
  have d: "distinct (free_id g)" using fr by (simp add: g_free_def)
  have "free_id g = butlast (free_id g) @ [v]" using False by (simp add: v_def)
  with d have "distinct (butlast (free_id g) @ [v])" by simp
  then have nv: "v \<notin> set (butlast (free_id g))" and db: "distinct (butlast (free_id g))"
    by simp_all
  have F: "u < size_graph g \<and> (is_free g)[v := False] ! u" if "u \<in> set (butlast (free_id g))" for u
  proof -
    have "u \<in> set (free_id g)" using that by (rule in_set_butlastD)
    then have "u < size_graph g \<and> is_free g ! u" using fr unfolding g_free_def by blast
    moreover have "u \<noteq> v" using that nv by auto
    ultimately show ?thesis by simp
  qed
  have G5: "g_free g'" unfolding g_free_def sz using db F by (simp add: g'_def)
  have "graph_inv g' E" using G1 G2 G3 G4 G5 by (simp add: graph_inv_def)
  moreover have "v < size_graph g'" using vN sz by (simp add: N_def)
  moreover have "is_free g' ! v = False" using vN N by (simp add: g'_def)
  ultimately show ?thesis using r False sz by (simp add: v_def)
qed

lemma new_vertex_push_inv:
  assumes inv: "graph_inv g E" and True: "free_id g = []" and room: "size_graph g < 65536"
  shows "\<exists>v g'. new_vertex g = Inr (v, g') \<and> graph_inv g' E \<and> v < size_graph g'
           \<and> is_free g' ! v = False
           \<and> size_graph g' = size_graph g + 1 \<and> v = size_graph g"
proof -
  from inv have sh: "g_shape g" and sy: "g_sym g" and we: "g_weights g E" and sl: "g_slots g"
    and fr: "g_free g" by (simp_all add: graph_inv_def)
  define N where "N = size_graph g"
  have N: "length (succs g) = N" "length (preds g) = N" "length (is_free g) = N" "N \<le> 65536"
    using sh by (simp_all add: g_shape_def N_def size_graph_def)
  define g' where "g' = g\<lparr>is_free := is_free g @ [False],
             succs := succs g @ [AdaptSMap_empty],
             preds := preds g @ [AdaptSMap_empty]\<rparr>"
  have Nlt: "N < 65536" using room True by (simp add: N_def)
  have "unat (of_nat N :: 32 word) = N" using Nlt by (simp add: unat_of_nat)
  then have r: "new_vertex g = Inr (N, g')"
    using True N by (simp add: new_vertex_def g'_def)
  have sz: "size_graph g' = Suc N" "length (preds g') = Suc N" "length (is_free g') = Suc N"
    using N by (simp_all add: g'_def size_graph_def)
  have su: "succs g' ! a = (if a < N then succs g ! a else AdaptSMap_empty)" if "a < Suc N" for a
    using that N by (auto simp: g'_def nth_append less_Suc_eq)
  have pu: "preds g' ! a = (if a < N then preds g ! a else AdaptSMap_empty)" if "a < Suc N" for a
    using that N by (auto simp: g'_def nth_append less_Suc_eq)
  have inv_s: "smap_inv (succs g ! a)" and inv_p: "smap_inv (preds g ! a)" if "a < N" for a
    using sh that unfolding g_shape_def N_def by blast+
  have rng_s: "unat k < N" if "a < N" "smap_abs (succs g ! a) k \<noteq> None" for a k
    using sh that unfolding g_shape_def N_def by blast
  have rng_p: "unat k < N" if "a < N" "smap_abs (preds g ! a) k \<noteq> None" for a k
    using sh that unfolding g_shape_def N_def by blast
  have uk: "unat (key_of b) = b" if "b < Suc N" for b
    using that Nlt by (intro unat_key_of) simp
  have SI: "sidx g' a b = (if a < N \<and> b < N then sidx g a b else None)"
    if ab: "a < Suc N" "b < Suc N" for a b
  proof (cases "a < N")
    case False
    then show ?thesis using su [OF ab(1)] by (simp add: sidx_def smap_abs_empty)
  next
    case a: True
    show ?thesis
    proof (cases "b < N")
      case True
      then show ?thesis using a su [OF ab(1)] by (simp add: sidx_def)
    next
      case False
      have "smap_abs (succs g ! a) (key_of b) = None"
      proof (rule ccontr)
        assume "smap_abs (succs g ! a) (key_of b) \<noteq> None"
        from rng_s [OF a this] uk [OF ab(2)] False show False by simp
      qed
      then show ?thesis using a False su [OF ab(1)] by (simp add: sidx_def)
    qed
  qed
  have PI: "pidx g' b a = (if a < N \<and> b < N then pidx g b a else None)"
    if ab: "a < Suc N" "b < Suc N" for a b
  proof (cases "b < N")
    case False
    then show ?thesis using pu [OF ab(2)] by (simp add: pidx_def smap_abs_empty)
  next
    case b: True
    show ?thesis
    proof (cases "a < N")
      case True
      then show ?thesis using b pu [OF ab(2)] by (simp add: pidx_def)
    next
      case False
      have "smap_abs (preds g ! b) (key_of a) = None"
      proof (rule ccontr)
        assume "smap_abs (preds g ! b) (key_of a) \<noteq> None"
        from rng_p [OF b this] uk [OF ab(1)] False show False by simp
      qed
      then show ?thesis using b False pu [OF ab(2)] by (simp add: pidx_def)
    qed
  qed
  have G1: "g_shape g'"
    unfolding g_shape_def sz
  proof (intro conjI allI impI)
    show "Suc N = Suc N" "Suc N = Suc N" "Suc N \<le> 65536" using Nlt by simp_all
  next
    fix a assume a: "a < Suc N"
    show "smap_inv (succs g' ! a)" using su [OF a] inv_s [of a] smap_inv_empty by simp
  next
    fix a assume a: "a < Suc N"
    show "smap_inv (preds g' ! a)" using pu [OF a] inv_p [of a] smap_inv_empty by simp
  next
    fix a k assume a: "a < Suc N" and k: "smap_abs (succs g' ! a) k \<noteq> None"
    then have "a < N \<and> smap_abs (succs g ! a) k \<noteq> None"
      using su [OF a] by (cases "a < N") (simp_all add: smap_abs_empty)
    then show "unat k < Suc N" using rng_s [of a k] by simp
  next
    fix a k assume a: "a < Suc N" and k: "smap_abs (preds g' ! a) k \<noteq> None"
    then have "a < N \<and> smap_abs (preds g ! a) k \<noteq> None"
      using pu [OF a] by (cases "a < N") (simp_all add: smap_abs_empty)
    then show "unat k < Suc N" using rng_p [of a k] by simp
  qed
  have sy': "pidx g b a = sidx g a b" if "a < N" "b < N" for a b
    using sy that unfolding g_sym_def N_def by blast
  have G2: "g_sym g'"
    unfolding g_sym_def sz
  proof (intro allI impI)
    fix a b assume ab: "a < Suc N" "b < Suc N"
    show "pidx g' b a = sidx g' a b"
      using SI [OF ab] PI [OF ab] sy' [of a b] by simp
  qed
  have we_dom: "a < N \<and> b < N" if "E (a, b) \<noteq> None" for a b
    using we that unfolding g_weights_def N_def by blast
  have we_none: "(E (a, b) = None) = (sidx g a b = None)" if "a < N" "b < N" for a b
    using we that unfolding g_weights_def N_def by blast
  have we_some: "i < length (ws g) \<and> E (a, b) = Some (ws g ! i)"
    if "a < N" "b < N" "sidx g a b = Some i" for a b i
    using we that unfolding g_weights_def N_def by blast
  have wsg: "ws g' = ws g" "free_widx g' = free_widx g" "free_id g' = free_id g"
    by (simp_all add: g'_def)
  have W1: "\<forall>a b. E (a, b) \<noteq> None \<longrightarrow> a < Suc N \<and> b < Suc N"
    using we_dom by (simp add: less_Suc_eq)
  have W2: "\<forall>a < Suc N. \<forall>b < Suc N.
         (E (a, b) = None \<longleftrightarrow> sidx g' a b = None)
         \<and> (\<forall>i. sidx g' a b = Some i \<longrightarrow> i < length (ws g') \<and> E (a, b) = Some (ws g' ! i))"
  proof (intro allI impI)
    fix a b assume ab: "a < Suc N" "b < Suc N"
    show "(E (a, b) = None \<longleftrightarrow> sidx g' a b = None)
         \<and> (\<forall>i. sidx g' a b = Some i \<longrightarrow> i < length (ws g') \<and> E (a, b) = Some (ws g' ! i))"
    proof (cases "a < N \<and> b < N")
      case True
      then show ?thesis
        using SI [OF ab] we_none [of a b] we_some [of a b] wsg(1) by simp
    next
      case False
      then have "E (a, b) = None" using we_dom [of a b] by (cases "E (a, b)") auto
      then show ?thesis using False SI [OF ab] by auto
    qed
  qed
  have G3: "g_weights g' E" unfolding g_weights_def sz using W1 W2 by (rule conjI)
  have sl_inj: "a = a' \<and> b = b'"
    if "a < N" "b < N" "a' < N" "b' < N" "sidx g a b = Some i" "sidx g a' b' = Some i"
    for a b a' b' i
    using sl that unfolding g_slots_def N_def by blast
  have sl_free: "i < length (ws g)" if "i \<in> set (free_widx g)" for i
    using sl that unfolding g_slots_def by blast
  have sl_unused: "sidx g a b \<noteq> Some i" if "i \<in> set (free_widx g)" "a < N" "b < N" for i a b
    using sl that unfolding g_slots_def N_def by blast
  have S1: "\<forall>a < Suc N. \<forall>b < Suc N. \<forall>a' < Suc N. \<forall>b' < Suc N. \<forall>i.
       sidx g' a b = Some i \<longrightarrow> sidx g' a' b' = Some i \<longrightarrow> a = a' \<and> b = b'"
  proof (intro allI impI)
    fix a b a' b' i
    assume h: "a < Suc N" "b < Suc N" "a' < Suc N" "b' < Suc N"
      "sidx g' a b = Some i" "sidx g' a' b' = Some i"
    have 1: "a < N \<and> b < N \<and> sidx g a b = Some i"
      using h(5) SI [OF h(1,2)] by (auto split: if_splits)
    have 2: "a' < N \<and> b' < N \<and> sidx g a' b' = Some i"
      using h(6) SI [OF h(3,4)] by (auto split: if_splits)
    show "a = a' \<and> b = b'" using sl_inj [of a b a' b' i] 1 2 by simp
  qed
  have S2: "distinct (free_widx g')" using sl by (simp add: g_slots_def wsg)
  have S3: "\<forall>i \<in> set (free_widx g'). i < length (ws g')
         \<and> (\<forall>a < Suc N. \<forall>b < Suc N. sidx g' a b \<noteq> Some i)"
  proof (intro ballI conjI allI impI)
    fix i assume i: "i \<in> set (free_widx g')"
    then show "i < length (ws g')" using sl_free [of i] by (simp add: wsg)
  next
    fix i a b assume i: "i \<in> set (free_widx g')" and ab: "a < Suc N" "b < Suc N"
    show "sidx g' a b \<noteq> Some i"
      using SI [OF ab] sl_unused [of i a b] i by (auto simp: wsg split: if_splits)
  qed
  have G4: "g_slots g'" unfolding g_slots_def sz using S1 S2 S3 by (intro conjI)
  have G5: "g_free g'" unfolding g_free_def sz using True by (simp add: wsg)
  have "graph_inv g' E" using G1 G2 G3 G4 G5 by (simp add: graph_inv_def)
  moreover have "is_free g' ! N = False" using N by (simp add: g'_def nth_append)
  ultimately show ?thesis using r True sz(1) by (simp add: N_def)
qed

lemma forget_succs_spec:
  assumes "length (preds g) = N" and "N \<le> 65536"
    and "\<forall>d < N. smap_inv (preds g ! d)"
    and "distinct (map key es)"
    and "\<forall>e \<in> set es. unat (key e) < N \<and> smap_abs (preds g ! unat (key e)) (key_of v) \<noteq> None"
  shows "\<exists>g'. forget_succs v es g = Inr g' \<and> succs g' = succs g \<and> ws g' = ws g
           \<and> is_free g' = is_free g \<and> free_id g' = free_id g \<and> edge_count g' = edge_count g
           \<and> free_widx g' = free_widx g @ map val es \<and> length (preds g') = N
           \<and> (\<forall>d < N. smap_inv (preds g' ! d)
                 \<and> smap_abs (preds g' ! d) =
                     (if key_of d \<in> key ` set es then (smap_abs (preds g ! d))(key_of v := None)
                      else smap_abs (preds g ! d)))"
  using assms
proof (induction es arbitrary: g)
  case Nil
  then show ?case by simp
next
  case (Cons e es)
  define j where "j = unat (key e)"
  have jN: "j < N" and pres: "smap_abs (preds g ! j) (key_of v) \<noteq> None"
    using Cons.prems(5) by (simp_all add: j_def)
  have ivj: "smap_inv (preds g ! j)" using Cons.prems(3) jN by blast
  from remove_abs [OF ivj pres] obtain p' where p':
    "remove (key_of v) (preds g ! j) = Inr p'" "smap_inv p'"
    "smap_abs p' = (smap_abs (preds g ! j))(key_of v := None)"
    by blast
  define g2 where "g2 = g\<lparr>free_widx := free_widx g @ [val e], preds := (preds g)[j := p']\<rparr>"
  have step: "forget_succs v (e # es) g = forget_succs v es g2"
    using jN Cons.prems(1) p'(1)
    by (simp add: vec_at_def j_def [symmetric] g2_def Let_def)
  have pn: "preds g2 ! d = (if d = j then p' else preds g ! d)" if "d < N" for d
    using that Cons.prems(1) by (simp add: g2_def nth_list_update)
  have kj: "key_of j = key e" by (simp add: j_def key_of_unat)
  have ne: "unat (key e') \<noteq> j" if "e' \<in> set es" for e'
  proof
    assume "unat (key e') = j"
    then have "key e' = key e" unfolding j_def by (rule unsigned_word_eqI)
    moreover have "key e \<notin> key ` set es" using Cons.prems(4) by simp
    ultimately show False using that by (metis image_eqI)
  qed
  have 1: "length (preds g2) = N" using Cons.prems(1) by (simp add: g2_def)
  have 3: "\<forall>d < N. smap_inv (preds g2 ! d)"
  proof (intro allI impI)
    fix d assume d: "d < N"
    show "smap_inv (preds g2 ! d)" using pn [OF d] p'(2) Cons.prems(3) d by simp
  qed
  have 4: "distinct (map key es)" using Cons.prems(4) by simp
  have 5: "\<forall>e' \<in> set es. unat (key e') < N
            \<and> smap_abs (preds g2 ! unat (key e')) (key_of v) \<noteq> None"
  proof (intro ballI)
    fix e' assume e': "e' \<in> set es"
    then have a: "unat (key e') < N" "smap_abs (preds g ! unat (key e')) (key_of v) \<noteq> None"
      using Cons.prems(5) by simp_all
    show "unat (key e') < N \<and> smap_abs (preds g2 ! unat (key e')) (key_of v) \<noteq> None"
      using a pn [OF a(1)] ne [OF e'] by simp
  qed
  from Cons.IH [OF 1 Cons.prems(2) 3 4 5] obtain g' where g':
    "forget_succs v es g2 = Inr g'" "succs g' = succs g2" "ws g' = ws g2"
    "is_free g' = is_free g2" "free_id g' = free_id g2" "edge_count g' = edge_count g2"
    "free_widx g' = free_widx g2 @ map val es" "length (preds g') = N"
    "\<forall>d < N. smap_inv (preds g' ! d)
                 \<and> smap_abs (preds g' ! d) =
                     (if key_of d \<in> key ` set es then (smap_abs (preds g2 ! d))(key_of v := None)
                      else smap_abs (preds g2 ! d))"
    by blast
  have fin: "smap_inv (preds g' ! d)
                 \<and> smap_abs (preds g' ! d) =
                     (if key_of d \<in> key ` set (e # es)
                      then (smap_abs (preds g ! d))(key_of v := None)
                      else smap_abs (preds g ! d))" if d: "d < N" for d
  proof -
    have a: "smap_inv (preds g' ! d)"
      and b: "smap_abs (preds g' ! d) =
                     (if key_of d \<in> key ` set es then (smap_abs (preds g2 ! d))(key_of v := None)
                      else smap_abs (preds g2 ! d))"
      using g'(9) d by blast+
    show ?thesis
    proof (cases "d = j")
      case True
      have "key_of d \<notin> key ` set es" using Cons.prems(4) True kj by auto
      then have "smap_abs (preds g' ! d) = smap_abs p'" using b pn [OF d] True by simp
      then show ?thesis using a p'(3) True kj by simp
    next
      case False
      have "key_of d \<noteq> key e"
      proof
        assume "key_of d = key e"
        then have "unat (key_of d) = j" by (simp add: j_def)
        then show False using False unat_key_of [of d] d Cons.prems(2) by simp
      qed
      then show ?thesis using a b pn [OF d] False by simp
    qed
  qed
  have "forget_succs v (e # es) g = Inr g'" using step g'(1) by simp
  moreover have "succs g' = succs g" "ws g' = ws g" "is_free g' = is_free g"
    "free_id g' = free_id g" "edge_count g' = edge_count g"
    "free_widx g' = free_widx g @ map val (e # es)"
    using g'(2-7) by (simp_all add: g2_def)
  ultimately show ?case using g'(8) fin by blast
qed

lemma forget_preds_spec:
  assumes "length (succs g) = N" and "N \<le> 65536"
    and "\<forall>d < N. smap_inv (succs g ! d)"
    and "distinct ks"
    and "\<forall>k \<in> set ks. unat k < N \<and> smap_abs (succs g ! unat k) (key_of v) \<noteq> None"
  shows "\<exists>g'. forget_preds v ks g = Inr g' \<and> preds g' = preds g \<and> ws g' = ws g
           \<and> is_free g' = is_free g \<and> free_id g' = free_id g \<and> edge_count g' = edge_count g
           \<and> free_widx g' = free_widx g \<and> length (succs g') = N
           \<and> (\<forall>d < N. smap_inv (succs g' ! d)
                 \<and> smap_abs (succs g' ! d) =
                     (if key_of d \<in> set ks then (smap_abs (succs g ! d))(key_of v := None)
                      else smap_abs (succs g ! d)))"
  using assms
proof (induction ks arbitrary: g)
  case Nil
  then show ?case by simp
next
  case (Cons k ks)
  define j where "j = unat k"
  have jN: "j < N" and pres: "smap_abs (succs g ! j) (key_of v) \<noteq> None"
    using Cons.prems(5) by (simp_all add: j_def)
  have ivj: "smap_inv (succs g ! j)" using Cons.prems(3) jN by blast
  from remove_abs [OF ivj pres] obtain p' where p':
    "remove (key_of v) (succs g ! j) = Inr p'" "smap_inv p'"
    "smap_abs p' = (smap_abs (succs g ! j))(key_of v := None)"
    by blast
  define g2 where "g2 = g\<lparr>succs := (succs g)[j := p']\<rparr>"
  have step: "forget_preds v (k # ks) g = forget_preds v ks g2"
    using jN Cons.prems(1) p'(1)
    by (simp add: vec_at_def j_def [symmetric] g2_def Let_def)
  have pn: "succs g2 ! d = (if d = j then p' else succs g ! d)" if "d < N" for d
    using that Cons.prems(1) by (simp add: g2_def nth_list_update)
  have kj: "key_of j = k" by (simp add: j_def key_of_unat)
  have ne: "unat k' \<noteq> j" if "k' \<in> set ks" for k'
  proof
    assume "unat k' = j"
    then have "k' = k" unfolding j_def by (rule unsigned_word_eqI)
    then show False using that Cons.prems(4) by simp
  qed
  have 1: "length (succs g2) = N" using Cons.prems(1) by (simp add: g2_def)
  have 3: "\<forall>d < N. smap_inv (succs g2 ! d)"
  proof (intro allI impI)
    fix d assume d: "d < N"
    show "smap_inv (succs g2 ! d)" using pn [OF d] p'(2) Cons.prems(3) d by simp
  qed
  have 4: "distinct ks" using Cons.prems(4) by simp
  have 5: "\<forall>k' \<in> set ks. unat k' < N
            \<and> smap_abs (succs g2 ! unat k') (key_of v) \<noteq> None"
  proof (intro ballI)
    fix k' assume k': "k' \<in> set ks"
    then have a: "unat k' < N" "smap_abs (succs g ! unat k') (key_of v) \<noteq> None"
      using Cons.prems(5) by simp_all
    show "unat k' < N \<and> smap_abs (succs g2 ! unat k') (key_of v) \<noteq> None"
      using a pn [OF a(1)] ne [OF k'] by simp
  qed
  from Cons.IH [OF 1 Cons.prems(2) 3 4 5] obtain g' where g':
    "forget_preds v ks g2 = Inr g'" "preds g' = preds g2" "ws g' = ws g2"
    "is_free g' = is_free g2" "free_id g' = free_id g2" "edge_count g' = edge_count g2"
    "free_widx g' = free_widx g2" "length (succs g') = N"
    "\<forall>d < N. smap_inv (succs g' ! d)
                 \<and> smap_abs (succs g' ! d) =
                     (if key_of d \<in> set ks then (smap_abs (succs g2 ! d))(key_of v := None)
                      else smap_abs (succs g2 ! d))"
    by blast
  have fin: "smap_inv (succs g' ! d)
                 \<and> smap_abs (succs g' ! d) =
                     (if key_of d \<in> set (k # ks)
                      then (smap_abs (succs g ! d))(key_of v := None)
                      else smap_abs (succs g ! d))" if d: "d < N" for d
  proof -
    have a: "smap_inv (succs g' ! d)"
      and b: "smap_abs (succs g' ! d) =
                     (if key_of d \<in> set ks then (smap_abs (succs g2 ! d))(key_of v := None)
                      else smap_abs (succs g2 ! d))"
      using g'(9) d by blast+
    show ?thesis
    proof (cases "d = j")
      case True
      have "key_of d \<notin> set ks" using Cons.prems(4) True kj by auto
      then have "smap_abs (succs g' ! d) = smap_abs p'" using b pn [OF d] True by simp
      then show ?thesis using a p'(3) True kj by simp
    next
      case False
      have "key_of d \<noteq> k"
      proof
        assume "key_of d = k"
        then have "unat (key_of d) = j" by (simp add: j_def)
        then show False using False unat_key_of [of d] d Cons.prems(2) by simp
      qed
      then show ?thesis using a b pn [OF d] False by simp
    qed
  qed
  have "forget_preds v (k # ks) g = Inr g'" using step g'(1) by simp
  moreover have "preds g' = preds g" "ws g' = ws g" "is_free g' = is_free g"
    "free_id g' = free_id g" "edge_count g' = edge_count g"
    "free_widx g' = free_widx g"
    using g'(2-7) by (simp_all add: g2_def)
  ultimately show ?case using g'(8) fin by blast
qed

lemma elt_eqI: "key (e :: elt_t) = key e' \<Longrightarrow> val e = val e' \<Longrightarrow> e = e'"
  by simp

lemma live_abs:
  assumes "smap_inv m"
  shows "distinct (map key (live m))"
    and "e \<in> set (live m) \<Longrightarrow> smap_abs m (key e) = Some (val e)"
    and "k \<in> key ` set (live m) \<longleftrightarrow> smap_abs m k \<noteq> None"
proof -
  show "distinct (map key (live m))" using assms by (simp add: smap_inv_alt)
  have r: "\<lparr>key = key e, val = val e\<rparr> = e" by simp
  show "e \<in> set (live m) \<Longrightarrow> smap_abs m (key e) = Some (val e)"
    using smap_abs_Some_iff [OF assms, of "key e" "val e"] unfolding r by simp
  show "k \<in> key ` set (live m) \<longleftrightarrow> smap_abs m k \<noteq> None"
    using smap_abs_dom [of m] by auto
qed

lemma forget_inv_live:
  assumes inv: "graph_inv g E" and v: "v < size_graph g" and nf: "\<not> is_free g ! v"
  shows "\<exists>g'. forget v g = Inr g' \<and> graph_inv g' (forget_edges v E)
           \<and> size_graph g' = size_graph g \<and> is_free g' = (is_free g)[v := True]
           \<and> free_id g' = free_id g @ [v]"
proof -
  from inv have sh: "g_shape g" and sy: "g_sym g" and we: "g_weights g E" and sl: "g_slots g"
    and fr: "g_free g" by (simp_all add: graph_inv_def)
  define N where "N = size_graph g"
  have N: "length (succs g) = N" "length (preds g) = N" "length (is_free g) = N" "N \<le> 65536"
    using sh by (simp_all add: g_shape_def N_def size_graph_def)
  have vN: "v < N" using v by (simp add: N_def)
  have inv_s: "smap_inv (succs g ! a)" and inv_p: "smap_inv (preds g ! a)" if "a < N" for a
    using sh that unfolding g_shape_def N_def by blast+
  have rng_s: "unat k < N" if "a < N" "smap_abs (succs g ! a) k \<noteq> None" for a k
    using sh that unfolding g_shape_def N_def by blast
  have rng_p: "unat k < N" if "a < N" "smap_abs (preds g ! a) k \<noteq> None" for a k
    using sh that unfolding g_shape_def N_def by blast
  have sym: "smap_abs (preds g ! b) (key_of a) = smap_abs (succs g ! a) (key_of b)"
    if "a < N" "b < N" for a b
    using sy that unfolding g_sym_def N_def sidx_def pidx_def by blast
  have kinj: "key_of a = key_of b \<longleftrightarrow> a = b" if "a < N" "b < N" for a b
    using that N(4) by (intro key_of_inj) simp_all
  have uk: "unat (key_of a) = a" if "a < N" for a
    using that N(4) by (intro unat_key_of) simp
  define sv where "sv = succs g ! v"
  define es where "es = live sv"
  have isv: "smap_inv sv" using inv_s [OF vN] by (simp add: sv_def)
  have e1: "elts sv = Inr es" using elts_inv [OF isv] by (simp add: es_def)
  have des: "distinct (map key es)" using live_abs(1) [OF isv] by (simp add: es_def)
  have esv: "smap_abs sv (key e) = Some (val e)" if "e \<in> set es" for e
    using live_abs(2) [OF isv, of e] that by (simp add: es_def)
  have esk: "k \<in> key ` set es \<longleftrightarrow> smap_abs sv k \<noteq> None" for k
    using live_abs(3) [OF isv, of k] by (simp add: es_def)
  have pre1: "\<forall>e \<in> set es. unat (key e) < N
               \<and> smap_abs (preds g ! unat (key e)) (key_of v) \<noteq> None"
  proof (intro ballI)
    fix e assume e: "e \<in> set es"
    have a: "smap_abs (succs g ! v) (key e) \<noteq> None" using esv [OF e] by (simp add: sv_def)
    have b: "unat (key e) < N" using rng_s [OF vN a] .
    have "smap_abs (preds g ! unat (key e)) (key_of v)
            = smap_abs (succs g ! v) (key_of (unat (key e)))" using sym [OF vN b] .
    then show "unat (key e) < N \<and> smap_abs (preds g ! unat (key e)) (key_of v) \<noteq> None"
      using a b by (simp add: key_of_unat)
  qed
  have ip: "\<forall>d < N. smap_inv (preds g ! d)" using inv_p by blast
  from forget_succs_spec [OF N(2) N(4) ip des pre1] obtain g1 where g1:
    "forget_succs v es g = Inr g1" "succs g1 = succs g" "ws g1 = ws g"
    "is_free g1 = is_free g" "free_id g1 = free_id g" "edge_count g1 = edge_count g"
    "free_widx g1 = free_widx g @ map val es" "length (preds g1) = N"
    "\<forall>d < N. smap_inv (preds g1 ! d)
                 \<and> smap_abs (preds g1 ! d) =
                     (if key_of d \<in> key ` set es then (smap_abs (preds g ! d))(key_of v := None)
                      else smap_abs (preds g ! d))"
    by blast
  have ip1: "smap_inv (preds g1 ! d)" if "d < N" for d using g1(9) that by blast
  have P1: "smap_abs (preds g1 ! d) = (smap_abs (preds g ! d))(key_of v := None)"
    if d: "d < N" for d
  proof (cases "key_of d \<in> key ` set es")
    case True
    then show ?thesis using g1(9) d by simp
  next
    case False
    then have "smap_abs (succs g ! v) (key_of d) = None" using esk [of "key_of d"]
      by (simp add: sv_def)
    then have "smap_abs (preds g ! d) (key_of v) = None" using sym [OF vN d] by simp
    then have "(smap_abs (preds g ! d))(key_of v := None) = smap_abs (preds g ! d)"
      by (intro ext) simp
    then show ?thesis using False g1(9) d by simp
  qed
  define g2 where "g2 = g1\<lparr>edge_count := edge_count g1 - int (size_smap sv),
                     succs := (succs g1)[v := clear sv]\<rparr>"
  have s2: "succs g2 ! a = (if a = v then clear sv else succs g ! a)" if "a < N" for a
    using that N(1) g1(2) by (simp add: g2_def nth_list_update)
  have l2: "length (succs g2) = N" using N(1) g1(2) by (simp add: g2_def)
  have is2: "\<forall>a < N. smap_inv (succs g2 ! a)"
  proof (intro allI impI)
    fix a assume a: "a < N"
    show "smap_inv (succs g2 ! a)" using s2 [OF a] inv_s [OF a] smap_inv_clear [OF isv] by simp
  qed
  define pv where "pv = preds g1 ! v"
  define ks where "ks = map key (live pv)"
  have ipv: "smap_inv pv" using ip1 [OF vN] by (simp add: pv_def)
  have k1: "keys pv = Inr ks" using keys_inv [OF ipv] by (simp add: ks_def)
  have dks: "distinct ks" using live_abs(1) [OF ipv] by (simp add: ks_def)
  have ksk: "k \<in> set ks \<longleftrightarrow> k \<noteq> key_of v \<and> smap_abs (preds g ! v) k \<noteq> None" for k
    using live_abs(3) [OF ipv, of k] P1 [OF vN] by (simp add: ks_def pv_def)
  have pre2: "\<forall>k \<in> set ks. unat k < N \<and> smap_abs (succs g2 ! unat k) (key_of v) \<noteq> None"
  proof (intro ballI)
    fix k assume "k \<in> set ks"
    then have a: "k \<noteq> key_of v" "smap_abs (preds g ! v) k \<noteq> None" using ksk [of k] by simp_all
    have b: "unat k < N" using rng_p [OF vN a(2)] .
    have c: "unat k \<noteq> v" using a(1) key_of_unat [of k] by auto
    have "smap_abs (preds g ! v) (key_of (unat k)) = smap_abs (succs g ! unat k) (key_of v)"
      using sym [OF b vN] .
    then have "smap_abs (succs g ! unat k) (key_of v) \<noteq> None" using a(2) by (simp add: key_of_unat)
    then show "unat k < N \<and> smap_abs (succs g2 ! unat k) (key_of v) \<noteq> None"
      using b c s2 [OF b] by simp
  qed
  from forget_preds_spec [OF l2 N(4) is2 dks pre2] obtain g3 where g3:
    "forget_preds v ks g2 = Inr g3" "preds g3 = preds g2" "ws g3 = ws g2"
    "is_free g3 = is_free g2" "free_id g3 = free_id g2" "edge_count g3 = edge_count g2"
    "free_widx g3 = free_widx g2" "length (succs g3) = N"
    "\<forall>d < N. smap_inv (succs g3 ! d)
                 \<and> smap_abs (succs g3 ! d) =
                     (if key_of d \<in> set ks then (smap_abs (succs g2 ! d))(key_of v := None)
                      else smap_abs (succs g2 ! d))"
    by blast
  have is3: "smap_inv (succs g3 ! a)" if "a < N" for a using g3(9) that by blast
  have S3: "smap_abs (succs g3 ! a) =
              (if a = v then Map.empty else (smap_abs (succs g ! a))(key_of v := None))"
    if a: "a < N" for a
  proof (cases "a = v")
    case True
    have "key_of v \<notin> set ks" using ksk [of "key_of v"] by simp
    then have "smap_abs (succs g3 ! v) = smap_abs (succs g2 ! v)" using g3(9) vN by simp
    then show ?thesis using True s2 [OF vN] by (simp add: smap_abs_clear)
  next
    case False
    have e: "succs g2 ! a = succs g ! a" using s2 [OF a] False by simp
    show ?thesis
    proof (cases "key_of a \<in> set ks")
      case True
      then show ?thesis using g3(9) a e False by simp
    next
      case nk: False
      have "key_of a \<noteq> key_of v" using kinj [OF a vN] False by simp
      then have "smap_abs (preds g ! v) (key_of a) = None" using nk ksk [of "key_of a"] by simp
      then have "smap_abs (succs g ! a) (key_of v) = None" using sym [OF a vN] by simp
      then have "(smap_abs (succs g ! a))(key_of v := None) = smap_abs (succs g ! a)"
        by (intro ext) simp
      then show ?thesis using nk g3(9) a e False by simp
    qed
  qed
  define g4 where "g4 = g3\<lparr>edge_count := edge_count g3 - int (size_smap pv),
                     preds := (preds g3)[v := clear pv]\<rparr>"
  define g5 where "g5 = g4\<lparr>is_free := (is_free g4)[v := True], free_id := free_id g4 @ [v]\<rparr>"
  have p3: "preds g3 = preds g1" using g3(2) by (simp add: g2_def)
  have a1: "vec_at (is_free g) v = Inr False" using vN N(3) nf by (simp add: vec_at_def)
  have a2: "vec_at (succs g) v = Inr sv" using vN N(1) by (simp add: vec_at_def sv_def)
  have a5: "vec_at (succs g1) v = Inr sv" using a2 g1(2) by simp
  have a6: "vec_at (preds g1) v = Inr pv" using vN g1(8) by (simp add: vec_at_def pv_def)
  have a9: "vec_at (preds g3) v = Inr pv" using a6 p3 by simp
  have r: "forget v g = Inr g5"
    by (simp add: forget_def a1 a2 e1 g1(1) a5 Let_def a6 k1 g3(1) [unfolded g2_def] a9
          g5_def g4_def)
  have f5: "succs g5 = succs g3" "preds g5 = (preds g1)[v := clear pv]" "ws g5 = ws g"
    "is_free g5 = (is_free g)[v := True]" "free_id g5 = free_id g @ [v]"
    "free_widx g5 = free_widx g @ map val es"
    using g1(3,4,5,7) g3(3,4,5,7) p3 by (simp_all add: g5_def g4_def g2_def)
  have sz: "size_graph g5 = N" "length (preds g5) = N" "length (is_free g5) = N"
    using g3(8) g1(8) N(3) f5 by (simp_all add: size_graph_def)
  have p5: "preds g5 ! d = (if d = v then clear pv else preds g1 ! d)" if "d < N" for d
    using that g1(8) f5(2) by (simp add: nth_list_update)
  have P5: "smap_abs (preds g5 ! d) =
              (if d = v then Map.empty else (smap_abs (preds g ! d))(key_of v := None))"
    if d: "d < N" for d
    using p5 [OF d] P1 [OF d] by (simp add: smap_abs_clear)
  have S5: "smap_abs (succs g5 ! a) =
              (if a = v then Map.empty else (smap_abs (succs g ! a))(key_of v := None))"
    if a: "a < N" for a
    using S3 [OF a] f5(1) by simp
  have SI: "sidx g5 a b = (if a = v \<or> b = v then None else sidx g a b)"
    if "a < N" "b < N" for a b
    using S5 [OF that(1)] kinj [OF that(2) vN] by (simp add: sidx_def)
  have PI: "pidx g5 b a = (if a = v \<or> b = v then None else pidx g b a)"
    if "a < N" "b < N" for a b
    using P5 [OF that(2)] kinj [OF that(1) vN] by (simp add: pidx_def)
  have G1: "g_shape g5"
    unfolding g_shape_def sz
  proof (intro conjI allI impI)
    show "N = N" "N = N" "N \<le> 65536" using N by simp_all
  next
    fix a assume a: "a < N"
    show "smap_inv (succs g5 ! a)" using is3 [OF a] f5(1) by simp
  next
    fix a assume a: "a < N"
    show "smap_inv (preds g5 ! a)" using p5 [OF a] ip1 [OF a] smap_inv_clear [OF ipv] by simp
  next
    fix a k assume a: "a < N" and k: "smap_abs (succs g5 ! a) k \<noteq> None"
    have "smap_abs (succs g ! a) k \<noteq> None"
      using k S5 [OF a] by (cases "a = v"; cases "k = key_of v") simp_all
    then show "unat k < N" using rng_s [OF a] by simp
  next
    fix a k assume a: "a < N" and k: "smap_abs (preds g5 ! a) k \<noteq> None"
    have "smap_abs (preds g ! a) k \<noteq> None"
      using k P5 [OF a] by (cases "a = v"; cases "k = key_of v") simp_all
    then show "unat k < N" using rng_p [OF a] by simp
  qed
  have sy': "pidx g b a = sidx g a b" if "a < N" "b < N" for a b
    using sy that unfolding g_sym_def N_def by blast
  have G2: "g_sym g5"
    unfolding g_sym_def sz
  proof (intro allI impI)
    fix a b assume ab: "a < N" "b < N"
    show "pidx g5 b a = sidx g5 a b" using SI [OF ab] PI [OF ab] sy' [OF ab] by simp
  qed
  have we_dom: "a < N \<and> b < N" if "E (a, b) \<noteq> None" for a b
    using we that unfolding g_weights_def N_def by blast
  have we_none: "(E (a, b) = None) = (sidx g a b = None)" if "a < N" "b < N" for a b
    using we that unfolding g_weights_def N_def by blast
  have we_some: "i < length (ws g) \<and> E (a, b) = Some (ws g ! i)"
    if "a < N" "b < N" "sidx g a b = Some i" for a b i
    using we that unfolding g_weights_def N_def by blast
  have FE: "forget_edges v E (a, b) = (if a = v \<or> b = v then None else E (a, b))" for a b
    by (simp add: forget_edges_def)
  have W1: "\<forall>a b. forget_edges v E (a, b) \<noteq> None \<longrightarrow> a < N \<and> b < N"
  proof (intro allI impI)
    fix a b assume "forget_edges v E (a, b) \<noteq> None"
    then have "E (a, b) \<noteq> None" unfolding FE by (auto split: if_splits)
    then show "a < N \<and> b < N" by (rule we_dom)
  qed
  have W2: "\<forall>a < N. \<forall>b < N.
           (forget_edges v E (a, b) = None \<longleftrightarrow> sidx g5 a b = None)
           \<and> (\<forall>i. sidx g5 a b = Some i \<longrightarrow>
                  i < length (ws g5) \<and> forget_edges v E (a, b) = Some (ws g5 ! i))"
  proof (intro allI impI)
    fix a b assume ab: "a < N" "b < N"
    show "(forget_edges v E (a, b) = None \<longleftrightarrow> sidx g5 a b = None)
           \<and> (\<forall>i. sidx g5 a b = Some i \<longrightarrow>
                  i < length (ws g5) \<and> forget_edges v E (a, b) = Some (ws g5 ! i))"
    proof (cases "a = v \<or> b = v")
      case True
      then show ?thesis using SI [OF ab] unfolding FE by auto
    next
      case False
      then show ?thesis
        using SI [OF ab] we_none [OF ab] we_some [OF ab] f5(3) unfolding FE by simp
    qed
  qed
  have G3: "g_weights g5 (forget_edges v E)"
    unfolding g_weights_def sz using W1 W2 by (rule conjI)
  have sl_inj: "a = a' \<and> b = b'"
    if "a < N" "b < N" "a' < N" "b' < N" "sidx g a b = Some i" "sidx g a' b' = Some i"
    for a b a' b' i
    using sl that unfolding g_slots_def N_def by blast
  have sl_free: "i < length (ws g)" if "i \<in> set (free_widx g)" for i
    using sl that unfolding g_slots_def by blast
  have sl_unused: "sidx g a b \<noteq> Some i" if "i \<in> set (free_widx g)" "a < N" "b < N" for i a b
    using sl that unfolding g_slots_def N_def by blast
  have sl_dist: "distinct (free_widx g)" using sl by (simp add: g_slots_def)
  have ese: "unat (key e) < N \<and> sidx g v (unat (key e)) = Some (val e)" if "e \<in> set es" for e
  proof -
    have a: "smap_abs (succs g ! v) (key e) = Some (val e)" using esv [OF that] by (simp add: sv_def)
    then have "unat (key e) < N" using rng_s [OF vN, of "key e"] by simp
    then show ?thesis using a by (simp add: sidx_def key_of_unat)
  qed
  have S1: "\<forall>a < N. \<forall>b < N. \<forall>a' < N. \<forall>b' < N. \<forall>i.
         sidx g5 a b = Some i \<longrightarrow> sidx g5 a' b' = Some i \<longrightarrow> a = a' \<and> b = b'"
  proof (intro allI impI)
    fix a b a' b' i
    assume h: "a < N" "b < N" "a' < N" "b' < N" "sidx g5 a b = Some i" "sidx g5 a' b' = Some i"
    have 1: "sidx g a b = Some i" using h(5) SI [OF h(1,2)] by (auto split: if_splits)
    have 2: "sidx g a' b' = Some i" using h(6) SI [OF h(3,4)] by (auto split: if_splits)
    show "a = a' \<and> b = b'" using sl_inj [OF h(1-4) 1 2] .
  qed
  have inj: "inj_on val (set es)"
  proof (rule inj_onI)
    fix e e' assume h: "e \<in> set es" "e' \<in> set es" "val e = val e'"
    have a: "unat (key e) < N" "sidx g v (unat (key e)) = Some (val e)" using ese [OF h(1)] by simp_all
    have b: "unat (key e') < N" "sidx g v (unat (key e')) = Some (val e)"
      using ese [OF h(2)] h(3) by simp_all
    have "unat (key e) = unat (key e')" using sl_inj [OF vN a(1) vN b(1) a(2) b(2)] by simp
    then have "key e = key e'" by (rule unsigned_word_eqI)
    then show "e = e'" using h(3) by (rule elt_eqI)
  qed
  have "distinct es" using des by (simp add: distinct_map)
  then have dv: "distinct (map val es)" using inj by (simp add: distinct_map)
  have disj: "set (free_widx g) \<inter> set (map val es) = {}"
  proof (rule ccontr)
    assume "set (free_widx g) \<inter> set (map val es) \<noteq> {}"
    then obtain e where e: "e \<in> set es" "val e \<in> set (free_widx g)" by auto
    from ese [OF e(1)] sl_unused [OF e(2) vN, of "unat (key e)"] show False by simp
  qed
  have S2: "distinct (free_widx g5)" using sl_dist dv disj by (simp add: f5(6))
  have S3': "\<forall>i \<in> set (free_widx g5). i < length (ws g5)
           \<and> (\<forall>a < N. \<forall>b < N. sidx g5 a b \<noteq> Some i)"
  proof (intro ballI)
    fix i assume "i \<in> set (free_widx g5)"
    then consider (old) "i \<in> set (free_widx g)" | (new) e where "e \<in> set es" "i = val e"
      by (auto simp: f5(6))
    then show "i < length (ws g5) \<and> (\<forall>a < N. \<forall>b < N. sidx g5 a b \<noteq> Some i)"
    proof cases
      case old
      have "sidx g5 a b \<noteq> Some i" if ab: "a < N" "b < N" for a b
        using SI [OF ab] sl_unused [OF old ab] by (auto split: if_splits)
      then show ?thesis using sl_free [OF old] f5(3) by simp
    next
      case new
      have a: "unat (key e) < N" "sidx g v (unat (key e)) = Some i"
        using ese [OF new(1)] new(2) by simp_all
      have il: "i < length (ws g)" using we_some [OF vN a] by simp
      have "sidx g5 a b \<noteq> Some i" if ab: "a < N" "b < N" for a b
      proof
        assume "sidx g5 a b = Some i"
        then have "a \<noteq> v \<and> sidx g a b = Some i" using SI [OF ab] by (auto split: if_splits)
        then show False using sl_inj [OF ab vN a(1) _ a(2)] by simp
      qed
      then show ?thesis using il f5(3) by simp
    qed
  qed
  have G4: "g_slots g5" unfolding g_slots_def sz using S1 S2 S3' by (intro conjI)
  have fr_d: "distinct (free_id g)" using fr by (simp add: g_free_def)
  have fr_m: "u < N \<and> is_free g ! u" if "u \<in> set (free_id g)" for u
    using fr that unfolding g_free_def N_def by blast
  have vnf: "v \<notin> set (free_id g)" using fr_m [of v] nf by auto
  have F2: "\<forall>u \<in> set (free_id g5). u < N \<and> is_free g5 ! u"
  proof (intro ballI)
    fix u assume "u \<in> set (free_id g5)"
    then have "u = v \<or> u \<in> set (free_id g)" by (auto simp: f5(5))
    then show "u < N \<and> is_free g5 ! u"
      using fr_m [of u] vN N(3) by (auto simp: f5(4) nth_list_update)
  qed
  have F1: "distinct (free_id g5)" using fr_d vnf by (simp add: f5(5))
  have G5: "g_free g5" unfolding g_free_def sz using F1 F2 by (rule conjI)
  have "graph_inv g5 (forget_edges v E)" using G1 G2 G3 G4 G5 by (simp add: graph_inv_def)
  moreover have "size_graph g5 = size_graph g" using sz(1) by (simp add: N_def)
  ultimately show ?thesis using r f5(4,5) by blast
qed

lemma forget_inv:
  assumes inv: "graph_inv g E" and v: "v < size_graph g"
  shows "\<exists>g'. forget v g = Inr g'
           \<and> graph_inv g' (if is_free g ! v then E else forget_edges v E)
           \<and> size_graph g' = size_graph g"
proof (cases "is_free g ! v")
  case True
  have "length (is_free g) = size_graph g" using inv by (simp add: graph_inv_def g_shape_def)
  then have "forget v g = Inr g" using True v by (simp add: forget_def vec_at_def)
  then show ?thesis using inv True by simp
next
  case False
  from forget_inv_live [OF inv v False] show ?thesis using False by auto
qed

lemma graph_inv_empty: "graph_inv AdaptGraph_empty Map.empty"
  by (simp add: graph_inv_def g_shape_def g_sym_def g_weights_def g_slots_def g_free_def
        AdaptGraph_empty_def size_graph_def)

lemma graph_built_inv:
  assumes "graph_built N g E" and "N \<le> 65536"
  shows "graph_inv g E \<and> size_graph g \<le> N"
  using assms
proof (induction rule: graph_built.induct)
  case g_empty
  show ?case using graph_inv_empty by (simp add: size_graph_def AdaptGraph_empty_def)
next
  case (g_new_vertex g E v g')
  then have inv: "graph_inv g E" and le: "size_graph g \<le> N" by simp_all
  show ?case
  proof (cases "free_id g = []")
    case True
    then have lt: "size_graph g < N" using g_new_vertex.hyps(2) by simp
    then have "size_graph g < 65536" using g_new_vertex.prems by simp
    from new_vertex_push_inv [OF inv True this] g_new_vertex.hyps(3) lt show ?thesis by auto
  next
    case False
    from new_vertex_pop_inv [OF inv False] g_new_vertex.hyps(3) le show ?thesis by auto
  qed
next
  case (g_add_edge g E s d w g')
  then have inv: "graph_inv g E" and le: "size_graph g \<le> N" by simp_all
  from add_edge_inv [OF inv g_add_edge.hyps(2,3,4), of w] obtain g2 where
    g2: "add_edge s w d g = Inr g2" "graph_inv g2 (E((s, d) \<mapsto> w))"
      "size_graph g2 = size_graph g"
    by blast
  have "g2 = g'" using g2(1) g_add_edge.hyps(5) by simp
  then show ?case using g2(2,3) le by (simp add: fun_upd_def)
next
  case (g_update_edge g E s d junk w g')
  then have inv: "graph_inv g E" and le: "size_graph g \<le> N" by simp_all
  from update_edge_inv [OF inv g_update_edge.hyps(2,3), of junk w] obtain g2 where
    g2: "update_edge junk s w d g = Inr g2"
      "graph_inv g2 (E((s, d) \<mapsto> (case E (s, d) of None \<Rightarrow> w | Some w0 \<Rightarrow> min w0 w)))"
      "size_graph g2 = size_graph g"
    by blast
  have "g2 = g'" using g2(1) g_update_edge.hyps(4) by simp
  then show ?case using g2(2,3) le by (simp add: fun_upd_def)
next
  case (g_set_edge g E s d junk w g')
  then have inv: "graph_inv g E" and le: "size_graph g \<le> N" by simp_all
  from set_edge_inv [OF inv g_set_edge.hyps(2,3), of junk w] obtain g2 where
    g2: "set_edge junk s w d g = Inr g2" "graph_inv g2 (E((s, d) \<mapsto> w))"
      "size_graph g2 = size_graph g"
    by blast
  have "g2 = g'" using g2(1) g_set_edge.hyps(4) by simp
  then show ?case using g2(2,3) le by (simp add: fun_upd_def)
next
  case (g_forget g E v g')
  then have inv: "graph_inv g E" and le: "size_graph g \<le> N" by simp_all
  from forget_inv [OF inv g_forget.hyps(2)] obtain g2 where
    g2: "forget v g = Inr g2"
      "graph_inv g2 (if is_free g ! v then E else forget_edges v E)"
      "size_graph g2 = size_graph g"
    by blast
  have "g2 = g'" using g2(1) g_forget.hyps(3) by simp
  then show ?case using g2(2,3) le by (simp add: fun_upd_def)
qed

lemma graph_inv_reads:
  assumes inv: "graph_inv g E" and s: "s < size_graph g" and d: "d < size_graph g"
  shows "elem_graph junk g s d = Inr (E (s, d) \<noteq> None)"
    and "pred_elem junk g d s = Inr (E (s, d) \<noteq> None)"
    and "fbind (vec_at (succs g) s) (\<lambda>m. lookup junk m (key_of d)) = Inr (sidx g s d)"
    and "fbind (vec_at (preds g) d) (\<lambda>m. lookup junk m (key_of s)) = Inr (sidx g s d)"
    and "E (s, d) = Some w \<Longrightarrow>
           \<exists>i. sidx g s d = Some i \<and> vec_at (ws g) i = Inr w \<and> edge_val junk g s d = Inr w"
proof -
  from inv have sh: "g_shape g" and sy: "g_sym g" and we: "g_weights g E"
    by (simp_all add: graph_inv_def)
  have ls: "vec_at (succs g) s = Inr (succs g ! s)" using s by (simp add: vec_at_def size_graph_def)
  have lp: "vec_at (preds g) d = Inr (preds g ! d)"
    using sh d by (simp add: vec_at_def g_shape_def)
  have ivs: "smap_inv (succs g ! s)" using sh s unfolding g_shape_def by blast
  have ip: "smap_inv (preds g ! d)" using sh d unfolding g_shape_def by blast
  have ps: "pidx g d s = sidx g s d" using sy s d unfolding g_sym_def by blast
  have en: "E (s, d) = None \<longleftrightarrow> sidx g s d = None" using we s d unfolding g_weights_def by blast
  have es: "i < length (ws g) \<and> E (s, d) = Some (ws g ! i)" if "sidx g s d = Some i" for i
    using we s d that unfolding g_weights_def by blast
  show "elem_graph junk g s d = Inr (E (s, d) \<noteq> None)"
    using ls elem_inv [OF ivs, of junk "key_of d"] en
    by (auto simp: elem_graph_def sidx_def dom_def)
  show "pred_elem junk g d s = Inr (E (s, d) \<noteq> None)"
    using lp elem_inv [OF ip, of junk "key_of s"] en ps
    by (auto simp: pred_elem_def sidx_def pidx_def dom_def)
  show 3: "fbind (vec_at (succs g) s) (\<lambda>m. lookup junk m (key_of d)) = Inr (sidx g s d)"
    using ls lookup_inv [OF ivs, of junk "key_of d"] by (simp add: sidx_def)
  show "fbind (vec_at (preds g) d) (\<lambda>m. lookup junk m (key_of s)) = Inr (sidx g s d)"
    using lp lookup_inv [OF ip, of junk "key_of s"] ps by (simp add: pidx_def)
  show "\<exists>i. sidx g s d = Some i \<and> vec_at (ws g) i = Inr w \<and> edge_val junk g s d = Inr w"
    if w: "E (s, d) = Some w"
  proof -
    from w en obtain i where i: "sidx g s d = Some i" by (cases "sidx g s d") auto
    from es [OF i] w have v: "vec_at (ws g) i = Inr w" by (simp add: vec_at_def)
    have "edge_val junk g s d = Inr w"
      using ls lookup_inv [OF ivs, of junk "key_of d"] i v by (simp add: edge_val_def sidx_def)
    with i v show ?thesis by blast
  qed
qed

lemma forgotten_built:
  "graph_built N forgotten_graph (forget_edges 0 [(0, 1) \<mapsto> 5])" if "2 \<le> N"
  using g_forget [OF out_edge_built [OF that] _ forget_out_edge]
  by (simp add: size_graph_def out_edge_graph_def)

lemma new_vertex_fresh:
  "n \<le> 65536 \<Longrightarrow> new_vertex (fresh_graph n) = Inr (n, fresh_graph (Suc n))"
  by (simp add: new_vertex_def fresh_graph_def unat_of_nat replicate_append_same)

lemma fresh_built: "n \<le> N \<Longrightarrow> N \<le> 65537 \<Longrightarrow> graph_built N (fresh_graph n) Map.empty"
proof (induction n)
  case 0
  have "fresh_graph 0 = AdaptGraph_empty" by (simp add: fresh_graph_def AdaptGraph_empty_def)
  then show ?case using g_empty [of N] by simp
next
  case (Suc n)
  then have b: "graph_built N (fresh_graph n) Map.empty" by simp
  have "n \<le> 65536" using Suc.prems by arith
  from g_new_vertex [OF b _ new_vertex_fresh [OF this]] Suc.prems
  show ?case by (simp add: size_graph_def fresh_graph_def)
qed

lemma key_of_65536: "key_of 65536 = 0" "key_of 0 = 0"
  by (simp_all add: key_of_def)

lemma add_edge_fresh: "0 < n \<Longrightarrow> add_edge 0 5 0 (fresh_graph n) = Inr (loop_graph n)"
  by (simp add: add_edge_def alloc_widx_def fresh_graph_def loop_graph_def vec_at_def
        key_of_65536 add_one_elt)

lemma loop_built:
  assumes "0 < n" "n \<le> N" "N \<le> 65537"
  shows "graph_built N (loop_graph n) loop_edge"
  using g_add_edge [OF fresh_built [OF assms(2,3)] _ _ _ add_edge_fresh [OF assms(1)]] assms(1)
  by (simp add: size_graph_def fresh_graph_def loop_edge_def)

lemma elem_one_elt: "elem junk (one_elt k v) k = Inr True"
  by (simp add: elem_def one_elt_def rd_def eval_nat_numeral)

lemma lookup_one_elt: "lookup junk (one_elt k v) k = Inr (Some v)"
  by (simp add: lookup_def one_elt_def rd_def eval_nat_numeral)

lemma elem_empty: "elem junk AdaptSMap_empty k = Inr False"
  by (simp add: elem_def AdaptSMap_empty_def)

lemma loop_graph_asym:
  assumes "65536 < n"
  shows "elem_graph junk (loop_graph n) 0 65536 = Inr True"
    and "pred_elem junk (loop_graph n) 65536 0 = Inr False"
    and "edge_val_after_update junk 0 7 65536 (loop_graph n) = Inr 5"
  using assms
  by (simp_all add: elem_graph_def pred_elem_def edge_val_after_update_def update_edge_def
        edge_val_def loop_graph_def vec_at_def key_of_65536 elem_one_elt elem_empty lookup_one_elt)

lemma aliased_facts:
  "graph_built 65537 aliased_graph loop_edge"
  "elem_graph 0 aliased_graph 0 65536 = Inr True"
  "pred_elem 0 aliased_graph 65536 0 = Inr False"
  "edge_val_after_update 0 0 7 65536 aliased_graph = Inr 5"
  "loop_edge (0, 65536) = None"
  unfolding aliased_graph_def
  using loop_built [of 65537 65537] loop_graph_asym [of 65537 0]
  by (simp_all add: loop_edge_def)

text \<open>
  C1, as stated, fails: vertex ids are \<^verbatim>\<open>unsigned int\<close> but the keys of the per-vertex
  maps are \<^verbatim>\<open>uint16_t\<close>. After 65537 calls of \<^verbatim>\<open>new_vertex\<close> and \<^verbatim>\<open>add_edge(0, 5, 0)\<close>
  the successor map of vertex 0 answers for vertex 65536 as it does for vertex 0, while
  the predecessor map of vertex 65536 is empty.
\<close>

theorem succ_pred_aliasing_counterexample:
  "graph_built 65537 aliased_graph loop_edge
     \<and> elem_graph 0 aliased_graph 0 65536 = Inr True
     \<and> pred_elem 0 aliased_graph 65536 0 = Inr False"
  using aliased_facts(1-3) by simp

text \<open>
  C1, amended. For every graph built by \<^verbatim>\<open>new_vertex\<close>, \<^verbatim>\<open>add_edge\<close> (of an absent
  edge), \<^verbatim>\<open>update_edge\<close>, \<^verbatim>\<open>set_edge\<close> and \<^verbatim>\<open>forget\<close> on vertices of the graph, while
  it has at most \<open>2 ^ 16\<close> vertices, and all its vertices \<open>s\<close> and \<open>d\<close>: the successor
  map of \<open>s\<close> contains \<open>d\<close> exactly when the predecessor map of \<open>d\<close> contains \<open>s\<close>,
  which is exactly when the edge was added and not forgotten since; both maps then give
  the same weight slot, which holds the weight of the edge; every vertex on \<^verbatim>\<open>free_id\<close>
  has \<^verbatim>\<open>is_free\<close> set. Each of the five operations returns on such a graph, and its
  result is again such a graph.
\<close>

theorem graph_succ_pred_sym:
  assumes b: "graph_built 65536 g E" and s: "s < size_graph g" and d: "d < size_graph g"
  shows "elem_graph junk g s d = Inr (E (s, d) \<noteq> None)
     \<and> pred_elem junk g d s = Inr (E (s, d) \<noteq> None)
     \<and> (\<forall>w0. E (s, d) = Some w0 \<longrightarrow>
          (\<exists>i. fbind (vec_at (succs g) s) (\<lambda>m. lookup junk m (key_of d)) = Inr (Some i)
             \<and> fbind (vec_at (preds g) d) (\<lambda>m. lookup junk m (key_of s)) = Inr (Some i)
             \<and> vec_at (ws g) i = Inr w0))
     \<and> (\<forall>v \<in> set (free_id g). vec_at (is_free g) v = Inr True)
     \<and> (free_id g \<noteq> [] \<or> size_graph g < 65536 \<longrightarrow>
          (\<exists>v g'. new_vertex g = Inr (v, g') \<and> graph_built 65536 g' E))
     \<and> (E (s, d) = None \<longrightarrow>
          (\<exists>g'. add_edge s w d g = Inr g' \<and> graph_built 65536 g' (E((s, d) \<mapsto> w))))
     \<and> (\<exists>g'. update_edge junk s w d g = Inr g'
           \<and> graph_built 65536 g'
                (E((s, d) \<mapsto> (case E (s, d) of None \<Rightarrow> w | Some w0 \<Rightarrow> min w0 w))))
     \<and> (\<exists>g'. set_edge junk s w d g = Inr g' \<and> graph_built 65536 g' (E((s, d) \<mapsto> w)))
     \<and> (\<exists>g'. forget s g = Inr g'
           \<and> graph_built 65536 g' (if is_free g ! s then E else forget_edges s E))"
proof -
  have inv: "graph_inv g E" using graph_built_inv [OF b] by simp
  note rd = graph_inv_reads [OF inv s d]
  have c1: "elem_graph junk g s d = Inr (E (s, d) \<noteq> None)" by (rule rd(1))
  have c2: "pred_elem junk g d s = Inr (E (s, d) \<noteq> None)" by (rule rd(2))
  have c3: "\<forall>w0. E (s, d) = Some w0 \<longrightarrow>
          (\<exists>i. fbind (vec_at (succs g) s) (\<lambda>m. lookup junk m (key_of d)) = Inr (Some i)
             \<and> fbind (vec_at (preds g) d) (\<lambda>m. lookup junk m (key_of s)) = Inr (Some i)
             \<and> vec_at (ws g) i = Inr w0)"
  proof (intro allI impI)
    fix w0 assume "E (s, d) = Some w0"
    from rd(5) [OF this, of junk] obtain i where i: "sidx g s d = Some i" "vec_at (ws g) i = Inr w0"
      by blast
    show "\<exists>i. fbind (vec_at (succs g) s) (\<lambda>m. lookup junk m (key_of d)) = Inr (Some i)
             \<and> fbind (vec_at (preds g) d) (\<lambda>m. lookup junk m (key_of s)) = Inr (Some i)
             \<and> vec_at (ws g) i = Inr w0"
      using rd(3) [of junk] rd(4) [of junk] i by (intro exI [of _ i]) simp
  qed
  have c4: "\<forall>v \<in> set (free_id g). vec_at (is_free g) v = Inr True"
  proof
    fix v assume v: "v \<in> set (free_id g)"
    have "g_free g" "length (is_free g) = size_graph g"
      using inv by (simp_all add: graph_inv_def g_shape_def)
    then show "vec_at (is_free g) v = Inr True"
      using v unfolding g_free_def by (auto simp: vec_at_def)
  qed
  have c5: "free_id g \<noteq> [] \<or> size_graph g < 65536 \<longrightarrow>
          (\<exists>v g'. new_vertex g = Inr (v, g') \<and> graph_built 65536 g' E)"
  proof
    assume r: "free_id g \<noteq> [] \<or> size_graph g < 65536"
    have "\<exists>v g'. new_vertex g = Inr (v, g')"
    proof (cases "free_id g = []")
      case True
      then have "size_graph g < 65536" using r by simp
      from new_vertex_push_inv [OF inv True this] show ?thesis by blast
    next
      case False
      from new_vertex_pop_inv [OF inv False] show ?thesis by blast
    qed
    then obtain v g' where n: "new_vertex g = Inr (v, g')" by blast
    from g_new_vertex [OF b r n] n
    show "\<exists>v g'. new_vertex g = Inr (v, g') \<and> graph_built 65536 g' E" by blast
  qed
  have c6: "E (s, d) = None \<longrightarrow>
          (\<exists>g'. add_edge s w d g = Inr g' \<and> graph_built 65536 g' (E((s, d) \<mapsto> w)))"
  proof
    assume n: "E (s, d) = None"
    from add_edge_inv [OF inv s d n, of w] obtain g' where a: "add_edge s w d g = Inr g'"
      by blast
    from g_add_edge [OF b s d n a] a
    show "\<exists>g'. add_edge s w d g = Inr g' \<and> graph_built 65536 g' (E((s, d) \<mapsto> w))" by blast
  qed
  have c7: "\<exists>g'. update_edge junk s w d g = Inr g'
           \<and> graph_built 65536 g'
                (E((s, d) \<mapsto> (case E (s, d) of None \<Rightarrow> w | Some w0 \<Rightarrow> min w0 w)))"
  proof -
    from update_edge_inv [OF inv s d, of junk w] obtain g' where
      a: "update_edge junk s w d g = Inr g'" by blast
    from g_update_edge [OF b s d a] a show ?thesis by blast
  qed
  have c8: "\<exists>g'. set_edge junk s w d g = Inr g' \<and> graph_built 65536 g' (E((s, d) \<mapsto> w))"
  proof -
    from set_edge_inv [OF inv s d, of junk w] obtain g' where
      a: "set_edge junk s w d g = Inr g'" by blast
    from g_set_edge [OF b s d a] a show ?thesis by blast
  qed
  have c9: "\<exists>g'. forget s g = Inr g'
           \<and> graph_built 65536 g' (if is_free g ! s then E else forget_edges s E)"
  proof -
    from forget_inv [OF inv s] obtain g' where a: "forget s g = Inr g'" by blast
    from g_forget [OF b s a] a show ?thesis by blast
  qed
  show ?thesis by (intro conjI c1 c2 c3 c4 c5 c6 c7 c8 c9)
qed

theorem graph_succ_pred_sym_witness:
  "graph_built 65536 in_edge_graph [(1, 0) \<mapsto> 5]
     \<and> 1 < size_graph in_edge_graph \<and> 0 < size_graph in_edge_graph
     \<and> elem_graph 0 in_edge_graph 1 0 = Inr True
     \<and> pred_elem 0 in_edge_graph 0 1 = Inr True
     \<and> (\<exists>i. fbind (vec_at (succs in_edge_graph) 1) (\<lambda>m. lookup 0 m (key_of 0)) = Inr (Some i)
           \<and> fbind (vec_at (preds in_edge_graph) 0) (\<lambda>m. lookup 0 m (key_of 1)) = Inr (Some i)
           \<and> vec_at (ws in_edge_graph) i = Inr 5)
     \<and> (\<exists>v g'. new_vertex in_edge_graph = Inr (v, g') \<and> graph_built 65536 g' [(1, 0) \<mapsto> 5])
     \<and> (\<exists>g'. update_edge 0 1 7 0 in_edge_graph = Inr g'
           \<and> graph_built 65536 g' [(1, 0) \<mapsto> 5])
     \<and> (\<exists>g'. set_edge 0 1 7 0 in_edge_graph = Inr g' \<and> graph_built 65536 g' [(1, 0) \<mapsto> 7])
     \<and> (\<exists>g'. forget 1 in_edge_graph = Inr g'
           \<and> graph_built 65536 g' (forget_edges 1 [(1, 0) \<mapsto> 5]))
     \<and> graph_built 65536 forgotten_graph (forget_edges 0 [(0, 1) \<mapsto> 5])
     \<and> free_id forgotten_graph = [0] \<and> vec_at (is_free forgotten_graph) 0 = Inr True
     \<and> elem_graph 0 forgotten_graph 0 1 = Inr False
     \<and> pred_elem 0 forgotten_graph 1 0 = Inr False
     \<and> (\<exists>g'. add_edge 0 7 1 forgotten_graph = Inr g'
           \<and> graph_built 65536 g' ((forget_edges 0 [(0, 1) \<mapsto> 5])((0, 1) \<mapsto> 7)))"
proof -
  have b1: "graph_built 65536 in_edge_graph [(1, 0) \<mapsto> 5]" by (rule in_edge_built) simp
  have s1: "1 < size_graph in_edge_graph" "0 < size_graph in_edge_graph"
    by (simp_all add: size_graph_def in_edge_graph_def)
  have e1: "[(1::nat, 0::nat) \<mapsto> 5::int] (1, 0) = Some 5" by simp
  have f1: "is_free in_edge_graph ! 1 = False" "size_graph in_edge_graph < 65536"
    by (simp_all add: in_edge_graph_def size_graph_def)
  note t1 = graph_succ_pred_sym [OF b1 s1, where junk = 0 and w = 7]
  have w1: "elem_graph 0 in_edge_graph 1 0 = Inr True" using t1 e1 by simp
  have w2: "pred_elem 0 in_edge_graph 0 1 = Inr True" using t1 e1 by simp
  have w3: "\<exists>i. fbind (vec_at (succs in_edge_graph) 1) (\<lambda>m. lookup 0 m (key_of 0)) = Inr (Some i)
           \<and> fbind (vec_at (preds in_edge_graph) 0) (\<lambda>m. lookup 0 m (key_of 1)) = Inr (Some i)
           \<and> vec_at (ws in_edge_graph) i = Inr 5" using t1 e1 by blast
  have w4: "\<exists>v g'. new_vertex in_edge_graph = Inr (v, g') \<and> graph_built 65536 g' [(1, 0) \<mapsto> 5]"
    using t1 f1(2) by blast
  have w5: "\<exists>g'. update_edge 0 1 7 0 in_edge_graph = Inr g'
           \<and> graph_built 65536 g' [(1, 0) \<mapsto> 5]" using t1 by simp
  have w6: "\<exists>g'. set_edge 0 1 7 0 in_edge_graph = Inr g' \<and> graph_built 65536 g' [(1, 0) \<mapsto> 7]"
    using t1 by simp
  have w7: "\<exists>g'. forget 1 in_edge_graph = Inr g'
           \<and> graph_built 65536 g' (forget_edges 1 [(1, 0) \<mapsto> 5])" using t1 f1(1) by simp
  have b2: "graph_built 65536 forgotten_graph (forget_edges 0 [(0, 1) \<mapsto> 5])"
    by (rule forgotten_built) simp
  have s2: "0 < size_graph forgotten_graph" "1 < size_graph forgotten_graph"
    by (simp_all add: size_graph_def forgotten_graph_def)
  have e2: "forget_edges 0 [(0::nat, 1::nat) \<mapsto> 5::int] (0, 1) = None"
    by (simp add: forget_edges_def)
  have f2: "free_id forgotten_graph = [0]" by (simp add: forgotten_graph_def)
  note t2 = graph_succ_pred_sym [OF b2 s2, where junk = 0 and w = 7]
  have v1: "vec_at (is_free forgotten_graph) 0 = Inr True" using t2 f2 by simp
  have v2: "elem_graph 0 forgotten_graph 0 1 = Inr False" using t2 e2 by simp
  have v3: "pred_elem 0 forgotten_graph 1 0 = Inr False" using t2 e2 by simp
  have v4: "\<exists>g'. add_edge 0 7 1 forgotten_graph = Inr g'
           \<and> graph_built 65536 g' ((forget_edges 0 [(0, 1) \<mapsto> 5])((0, 1) \<mapsto> 7))"
    using t2 e2 by blast
  show ?thesis by (intro conjI b1 s1 w1 w2 w3 w4 w5 w6 w7 b2 f2 v1 v2 v3 v4)
qed




section \<open>Proofs: the ASM Cfg\<close>

lemma collect_stats_loop_cong:
  "\<forall>l\<in>set ls. graph c' l = graph c l
     \<Longrightarrow> collect_stats_loop f c' ls res = collect_stats_loop f c ls res"
  by (induction ls arbitrary: res) (simp_all add: at_def)

text \<open>
  C10. For a label \<open>l\<close> with no block and not in the ordered label list, \<^verbatim>\<open>c[l]\<close>
  yields a fresh empty block and stores it under \<open>l\<close>, leaves every other block and
  the ordered label list as they are, so \<^verbatim>\<open>keys()\<close> does not contain \<open>l\<close> and a walk
  over \<^verbatim>\<open>keys()\<close> (\<^verbatim>\<open>collect_stats\<close>) does not see the new block, while
  \<^verbatim>\<open>at(l)\<close> now succeeds.
\<close>

theorem index_Cfg_not_encountered:
  "graph c l = None \<Longrightarrow> l \<notin> set (ordered_labels c) \<Longrightarrow>
     fst (index_Cfg l c) = BasicBlock_empty
     \<and> graph (snd (index_Cfg l c)) = (graph c)(l \<mapsto> BasicBlock_empty)
     \<and> keys_Cfg (snd (index_Cfg l c)) = keys_Cfg c
     \<and> l \<notin> set (keys_Cfg (snd (index_Cfg l c)))
     \<and> at (snd (index_Cfg l c)) l = Inr BasicBlock_empty
     \<and> at c l = Inl out_of_range
     \<and> collect_stats mem_load (snd (index_Cfg l c)) = collect_stats mem_load c"
proof -
  assume n: "graph c l = None" and k: "l \<notin> set (ordered_labels c)"
  let ?c' = "c\<lparr>graph := (graph c)(l \<mapsto> BasicBlock_empty)\<rparr>"
  have i: "index_Cfg l c = (BasicBlock_empty, ?c')" using n by (simp add: index_Cfg_def)
  have "collect_stats_loop mem_load ?c' (ordered_labels c) r
          = collect_stats_loop mem_load c (ordered_labels c) r" for r
    using k by (intro collect_stats_loop_cong) auto
  then have "collect_stats mem_load ?c' = collect_stats mem_load c"
    by (simp add: collect_stats_def keys_Cfg_def)
  then show ?thesis using i n k by (simp add: keys_Cfg_def at_def)
qed

theorem index_Cfg_not_encountered_witness:
  "graph one_block_Cfg ''b'' = None \<and> ''b'' \<notin> set (ordered_labels one_block_Cfg)
     \<and> fst (index_Cfg ''b'' one_block_Cfg) = BasicBlock_empty
     \<and> keys_Cfg (snd (index_Cfg ''b'' one_block_Cfg)) = [''a'']
     \<and> at (snd (index_Cfg ''b'' one_block_Cfg)) ''b'' = Inr BasicBlock_empty
     \<and> collect_stats id (snd (index_Cfg ''b'' one_block_Cfg))
         = Inr \<lparr>count = 2, stores = 0, loads = 1, jumps = 0, joins = 0\<rparr>"
proof -
  have h: "graph one_block_Cfg ''b'' = None" "''b'' \<notin> set (ordered_labels one_block_Cfg)"
    by (simp_all add: one_block_Cfg_def)
  have k: "keys_Cfg one_block_Cfg = [''a'']" by (simp add: keys_Cfg_def one_block_Cfg_def)
  have s: "collect_stats id one_block_Cfg
             = Inr \<lparr>count = 2, stores = 0, loads = 1, jumps = 0, joins = 0\<rparr>"
    by (simp add: collect_stats_def keys_Cfg_def one_block_Cfg_def at_def)
  from index_Cfg_not_encountered [OF h, of id] h k s show ?thesis by simp
qed

section \<open>Proofs: the analysis CFG\<close>

lemma remove_adjacent_eq: "remove_adjacent c e = removeAll e c"
  by (simp add: remove_adjacent_def)

lemma map_fst_upd_block: "map fst (upd_block l f bs) = map fst bs"
  by (induction bs) (auto simp: upd_block_def)

lemma map_of_upd_block:
  "map_of (upd_block l f bs) x = (if x = l then map_option f (map_of bs x) else map_of bs x)"
  by (induction bs) (auto simp: upd_block_def)

lemma map_fst_erase: "map fst (erase l bs) = removeAll l (map fst bs)"
  by (induction bs) (auto simp: erase_def)

lemma map_of_erase: "map_of (erase l bs) x = (if x = l then None else map_of bs x)"
  by (induction bs) (auto simp: erase_def)

lemma key_ok_upd_block:
  "key_ok bs \<Longrightarrow> (\<And>b. m_bb_id (f b) = m_bb_id b) \<Longrightarrow> key_ok (upd_block l f bs)"
  by (auto simp: key_ok_def map_of_upd_block split: if_splits)

lemma edge_sub_present:
  assumes "map_of bs a = Some ba" "map_of bs b = Some bb" "key_ok bs"
  shows "edge_sub (a, b) bs =
           upd_block b (\<lambda>x. x\<lparr>m_prev := removeAll a (m_prev x)\<rparr>)
             (upd_block a (\<lambda>x. x\<lparr>m_next := removeAll b (m_next x)\<rparr>) bs)"
  using assms by (simp add: edge_sub_def remove_adjacent_eq key_ok_def)

lemma removeAll_idem: "removeAll x (removeAll x xs) = removeAll x xs"
  by (induction xs) auto

lemma fold_edge_sub:
  assumes "\<forall>p\<in>set des. (fst p = l \<and> snd p \<noteq> l) \<or> (snd p = l \<and> fst p \<noteq> l)"
    and "\<forall>p\<in>set des. map_of bs (fst p) \<noteq> None \<and> map_of bs (snd p) \<noteq> None"
    and "key_ok bs"
  shows "map fst (fold edge_sub des bs) = map fst bs \<and> key_ok (fold edge_sub des bs)
     \<and> (\<forall>x. x \<noteq> l \<longrightarrow>
          map_of (fold edge_sub des bs) x =
            map_option (\<lambda>b. b\<lparr>m_next := (if (x, l) \<in> set des then removeAll l (m_next b)
                                           else m_next b),
                               m_prev := (if (l, x) \<in> set des then removeAll l (m_prev b)
                                          else m_prev b)\<rparr>)
              (map_of bs x))"
  using assms
proof (induction des arbitrary: bs)
  case Nil
  then show ?case by (simp add: option.map_ident)
next
  case (Cons p des)
  obtain a b where p: "p = (a, b)" by (cases p)
  from Cons.prems(2) p obtain ba bb where pr: "map_of bs a = Some ba" "map_of bs b = Some bb"
    by auto
  let ?bs1 = "upd_block b (\<lambda>x. x\<lparr>m_prev := removeAll a (m_prev x)\<rparr>)
             (upd_block a (\<lambda>x. x\<lparr>m_next := removeAll b (m_next x)\<rparr>) bs)"
  have e: "edge_sub p bs = ?bs1" using edge_sub_present [OF pr Cons.prems(3)] p by simp
  have k1: "key_ok ?bs1" using Cons.prems(3) by (intro key_ok_upd_block) simp_all
  have f1: "map fst ?bs1 = map fst bs" by (simp add: map_fst_upd_block)
  have d1: "\<forall>p\<in>set des. map_of ?bs1 (fst p) \<noteq> None \<and> map_of ?bs1 (snd p) \<noteq> None"
    using Cons.prems(2) by (auto simp: map_of_upd_block)
  have i1: "\<forall>p\<in>set des. (fst p = l \<and> snd p \<noteq> l) \<or> (snd p = l \<and> fst p \<noteq> l)"
    using Cons.prems(1) by simp
  from Cons.IH [OF i1 d1 k1] have ih:
    "map fst (fold edge_sub des ?bs1) = map fst ?bs1" "key_ok (fold edge_sub des ?bs1)"
    "\<forall>x. x \<noteq> l \<longrightarrow>
          map_of (fold edge_sub des ?bs1) x =
            map_option (\<lambda>b. b\<lparr>m_next := (if (x, l) \<in> set des then removeAll l (m_next b)
                                           else m_next b),
                               m_prev := (if (l, x) \<in> set des then removeAll l (m_prev b)
                                          else m_prev b)\<rparr>)
              (map_of ?bs1 x)"
    by simp_all
  have ab: "(a = l \<and> b \<noteq> l) \<or> (b = l \<and> a \<noteq> l)" using Cons.prems(1) p by simp
  have "map_of (fold edge_sub (p # des) bs) x =
            map_option (\<lambda>b. b\<lparr>m_next := (if (x, l) \<in> set (p # des) then removeAll l (m_next b)
                                           else m_next b),
                               m_prev := (if (l, x) \<in> set (p # des) then removeAll l (m_prev b)
                                          else m_prev b)\<rparr>)
              (map_of bs x)" if "x \<noteq> l" for x
  proof -
    note ihx = ih(3) [rule_format, OF that]
    have fe: "fold edge_sub (p # des) bs = fold edge_sub des ?bs1" using e by simp
    show ?thesis
    proof (cases "map_of bs x")
      case None
      then have "map_of ?bs1 x = None" by (auto simp: map_of_upd_block)
      then show ?thesis unfolding fe ihx using None by simp
    next
      case (Some bx)
      have m1: "map_of ?bs1 x =
              Some (bx\<lparr>m_next := (if x = a then removeAll b (m_next bx) else m_next bx),
                       m_prev := (if x = b then removeAll a (m_prev bx) else m_prev bx)\<rparr>)"
        using Some by (auto simp: map_of_upd_block)
      from ab show ?thesis
      proof (elim disjE conjE)
        assume "a = l" "b \<noteq> l"
        then show ?thesis unfolding fe ihx m1 using Some that p
          by (cases "x = b") (simp_all add: removeAll_idem)
      next
        assume "b = l" "a \<noteq> l"
        then show ?thesis unfolding fe ihx m1 using Some that p
          by (cases "x = a") (simp_all add: removeAll_idem)
      qed
    qed
  qed
  then show ?case using ih(1,2) f1 e by simp
qed

lemma dead_prev_ok:
  "\<forall>p\<in>set ps. map_of (m_blocks c) p \<noteq> None
     \<Longrightarrow> dead_prev c l ps = Inr (map (\<lambda>p. (p, l)) (filter (\<lambda>p. p \<noteq> l) ps))"
  by (induction ps) (auto simp: get_node_def)

lemma dead_next_ok:
  "\<forall>p\<in>set ps. map_of (m_blocks c) p \<noteq> None
     \<Longrightarrow> dead_next c l ps = Inr (map (\<lambda>p. (l, p)) (filter (\<lambda>p. p \<noteq> l) ps))"
  by (induction ps) (auto simp: get_node_def)

lemma set_insert_adjacent: "set (insert_adjacent c e) = insert e (set c)"
  by (auto simp: insert_adjacent_def)

lemma next_of_blocks:
  "next_of (c\<lparr>m_blocks := bs\<rparr>) l = (case map_of bs l of None \<Rightarrow> [] | Some b \<Rightarrow> m_next b)"
  by (simp add: next_of_def)

lemma prev_of_blocks:
  "prev_of (c\<lparr>m_blocks := bs\<rparr>) l = (case map_of bs l of None \<Rightarrow> [] | Some b \<Rightarrow> m_prev b)"
  by (simp add: prev_of_def)

lemma cfg_ok_new: "cfg_ok (cfg_new entry exit)"
  by (auto simp: cfg_ok_def cfg_new_def key_ok_def next_of_def prev_of_def create_def
      split: if_splits)

lemma cfg_ok_set_exit: "cfg_ok c \<Longrightarrow> cfg_ok (set_exit exit c)"
  by (simp add: cfg_ok_def set_exit_def next_of_def prev_of_def)

lemma cfg_ok_insert: "cfg_ok c \<Longrightarrow> cfg_ok (insert_cfg l c)"
proof (cases "map_of (m_blocks c) l")
  case (Some b)
  assume "cfg_ok c"
  with Some show ?thesis by (simp add: insert_cfg_def)
next
  case None
  assume ok: "cfg_ok c"
  let ?c' = "c\<lparr>m_blocks := (l, create l) # m_blocks c\<rparr>"
  have i: "insert_cfg l c = ?c'" using None by (simp add: insert_cfg_def)
  have n: "next_of ?c' x = next_of c x" for x
    using None by (simp add: next_of_def create_def)
  have p: "prev_of ?c' x = prev_of c x" for x
    using None by (simp add: prev_of_def create_def)
  have "key_ok (m_blocks ?c')"
    using ok by (auto simp: cfg_ok_def key_ok_def create_def split: if_splits)
  then show ?thesis using ok unfolding i cfg_ok_def n p by simp
qed

lemma cfg_ok_stmt: "cfg_ok c \<Longrightarrow> cfg_ok (add_stmt l st c)"
proof -
  assume ok: "cfg_ok c"
  let ?c' = "add_stmt l st c"
  have n: "next_of ?c' x = next_of c x" for x
    by (simp add: add_stmt_def next_of_def map_of_upd_block split: option.splits)
  have p: "prev_of ?c' x = prev_of c x" for x
    by (simp add: add_stmt_def prev_of_def map_of_upd_block split: option.splits)
  have "key_ok (m_blocks ?c')"
    using ok by (auto simp: cfg_ok_def add_stmt_def intro: key_ok_upd_block)
  then show ?thesis using ok unfolding cfg_ok_def n p by simp
qed

lemma cfg_ok_edge_add:
  assumes ok: "cfg_ok c" and e: "edge_add a b c = Inr c'"
  shows "cfg_ok c'"
proof -
  from e obtain ba bb where pr: "map_of (m_blocks c) a = Some ba" "map_of (m_blocks c) b = Some bb"
    by (auto simp: edge_add_def split: option.splits)
  have k: "key_ok (m_blocks c)" using ok by (simp add: cfg_ok_def)
  then have id: "m_bb_id ba = a" "m_bb_id bb = b" using pr by (auto simp: key_ok_def)
  let ?bs = "upd_block b (\<lambda>x. x\<lparr>m_prev := insert_adjacent (m_prev x) a\<rparr>)
               (upd_block a (\<lambda>x. x\<lparr>m_next := insert_adjacent (m_next x) b\<rparr>) (m_blocks c))"
  have c': "c' = c\<lparr>m_blocks := ?bs\<rparr>" using e pr id by (simp add: edge_add_def)
  have n: "next_of c' x = (if x = a then insert_adjacent (next_of c a) b else next_of c x)" for x
    unfolding c' next_of_blocks using pr
    by (auto simp: next_of_def map_of_upd_block split: option.splits)
  have p: "prev_of c' x = (if x = b then insert_adjacent (prev_of c b) a else prev_of c x)" for x
    unfolding c' prev_of_blocks using pr
    by (auto simp: prev_of_def map_of_upd_block split: option.splits)
  have "key_ok (m_blocks c')"
    unfolding c' using k by (auto intro!: key_ok_upd_block)
  moreover have "n \<in> set (next_of c' l) \<longleftrightarrow> l \<in> set (prev_of c' n)" for l n
    using ok unfolding n p cfg_ok_def by (auto simp: set_insert_adjacent)
  ultimately show ?thesis by (simp add: cfg_ok_def)
qed

lemma cfg_ok_edge_sub:
  assumes ok: "cfg_ok c" and pa: "map_of (m_blocks c) a \<noteq> None"
    and pb: "map_of (m_blocks c) b \<noteq> None"
  shows "cfg_ok (c\<lparr>m_blocks := edge_sub (a, b) (m_blocks c)\<rparr>)"
proof -
  from pa pb obtain ba bb where pr: "map_of (m_blocks c) a = Some ba" "map_of (m_blocks c) b = Some bb"
    by auto
  have k: "key_ok (m_blocks c)" using ok by (simp add: cfg_ok_def)
  let ?bs = "upd_block b (\<lambda>x. x\<lparr>m_prev := removeAll a (m_prev x)\<rparr>)
               (upd_block a (\<lambda>x. x\<lparr>m_next := removeAll b (m_next x)\<rparr>) (m_blocks c))"
  let ?c' = "c\<lparr>m_blocks := ?bs\<rparr>"
  have e: "edge_sub (a, b) (m_blocks c) = ?bs" using edge_sub_present [OF pr k] .
  have n: "next_of ?c' x = (if x = a then removeAll b (next_of c a) else next_of c x)" for x
    unfolding next_of_blocks using pr
    by (auto simp: next_of_def map_of_upd_block split: option.splits)
  have p: "prev_of ?c' x = (if x = b then removeAll a (prev_of c b) else prev_of c x)" for x
    unfolding prev_of_blocks using pr
    by (auto simp: prev_of_def map_of_upd_block split: option.splits)
  have "key_ok (m_blocks ?c')"
    using k by (auto intro!: key_ok_upd_block)
  moreover have "n \<in> set (next_of ?c' l) \<longleftrightarrow> l \<in> set (prev_of ?c' n)" for l n
    using ok unfolding n p cfg_ok_def by auto
  ultimately show ?thesis unfolding e by (simp add: cfg_ok_def)
qed

lemma cfg_ok_neighbours:
  assumes ok: "cfg_ok c" and bb: "map_of (m_blocks c) l = Some b"
  shows "\<forall>n\<in>set (m_next b). map_of (m_blocks c) n \<noteq> None"
    and "\<forall>p\<in>set (m_prev b). map_of (m_blocks c) p \<noteq> None"
proof -
  have nx: "next_of c l = m_next b" and pv: "prev_of c l = m_prev b"
    using bb by (simp_all add: next_of_def prev_of_def)
  show "\<forall>n\<in>set (m_next b). map_of (m_blocks c) n \<noteq> None"
  proof
    fix n assume "n \<in> set (m_next b)"
    then have "n \<in> set (next_of c l)" using nx by simp
    then have "l \<in> set (prev_of c n)" using ok by (simp add: cfg_ok_def)
    then show "map_of (m_blocks c) n \<noteq> None"
      by (cases "map_of (m_blocks c) n") (simp_all add: prev_of_def)
  qed
  show "\<forall>p\<in>set (m_prev b). map_of (m_blocks c) p \<noteq> None"
  proof
    fix p assume "p \<in> set (m_prev b)"
    then have "p \<in> set (prev_of c l)" using pv by simp
    then have "l \<in> set (next_of c p)" using ok by (simp add: cfg_ok_def)
    then show "map_of (m_blocks c) p \<noteq> None"
      by (cases "map_of (m_blocks c) p") (simp_all add: next_of_def)
  qed
qed

lemma remove_cfg_ok:
  assumes ok: "cfg_ok c" and ne: "l \<noteq> m_entry c" and nx: "m_exit c \<noteq> Some l"
    and bb: "map_of (m_blocks c) l = Some bb"
  shows "\<exists>c'. remove_cfg l c = Inr c' \<and> m_entry c' = m_entry c \<and> m_exit c' = m_exit c
           \<and> labels c' = removeAll l (labels c)
           \<and> key_ok (m_blocks c')
           \<and> map_of (m_blocks c') l = None
           \<and> (\<forall>x. x \<noteq> l \<longrightarrow>
                map_of (m_blocks c') x =
                  map_option (\<lambda>b. b\<lparr>m_next := (if x \<in> set (m_prev bb)
                                                 then removeAll l (m_next b) else m_next b),
                                     m_prev := (if x \<in> set (m_next bb)
                                                then removeAll l (m_prev b) else m_prev b)\<rparr>)
                    (map_of (m_blocks c) x))"
proof -
  let ?de1 = "map (\<lambda>p. (p, l)) (filter (\<lambda>p. p \<noteq> l) (m_prev bb))"
  let ?de2 = "map (\<lambda>p. (l, p)) (filter (\<lambda>p. p \<noteq> l) (m_next bb))"
  let ?bs = "fold edge_sub (?de1 @ ?de2) (m_blocks c)"
  let ?c' = "c\<lparr>m_blocks := erase l ?bs\<rparr>"
  note nb = cfg_ok_neighbours [OF ok bb]
  have k: "key_ok (m_blocks c)" using ok by (simp add: cfg_ok_def)
  have r: "remove_cfg l c = Inr ?c'"
    using ne nx bb dead_prev_ok [OF nb(2), of l] dead_next_ok [OF nb(1), of l]
    by (simp add: remove_cfg_def get_node_def)
  have h1: "\<forall>p\<in>set (?de1 @ ?de2). (fst p = l \<and> snd p \<noteq> l) \<or> (snd p = l \<and> fst p \<noteq> l)"
    by auto
  have h2: "\<forall>p\<in>set (?de1 @ ?de2).
              map_of (m_blocks c) (fst p) \<noteq> None \<and> map_of (m_blocks c) (snd p) \<noteq> None"
    using nb bb by auto
  from fold_edge_sub [OF h1 h2 k] have f:
    "map fst ?bs = map fst (m_blocks c)" "key_ok ?bs"
    "\<forall>x. x \<noteq> l \<longrightarrow>
          map_of ?bs x =
            map_option (\<lambda>b. b\<lparr>m_next := (if (x, l) \<in> set (?de1 @ ?de2) then removeAll l (m_next b)
                                           else m_next b),
                               m_prev := (if (l, x) \<in> set (?de1 @ ?de2) then removeAll l (m_prev b)
                                          else m_prev b)\<rparr>)
              (map_of (m_blocks c) x)"
    by simp_all
  have m1: "(x, l) \<in> set (?de1 @ ?de2) \<longleftrightarrow> x \<in> set (m_prev bb)" if "x \<noteq> l" for x
    using that by auto
  have m2: "(l, x) \<in> set (?de1 @ ?de2) \<longleftrightarrow> x \<in> set (m_next bb)" if "x \<noteq> l" for x
    using that by auto
  have "key_ok (erase l ?bs)" using f(2) by (auto simp: key_ok_def map_of_erase split: if_splits)
  moreover have "labels ?c' = removeAll l (labels c)"
    using f(1) by (simp add: labels_def map_fst_erase)
  moreover have "\<forall>x. x \<noteq> l \<longrightarrow>
                map_of (m_blocks ?c') x =
                  map_option (\<lambda>b. b\<lparr>m_next := (if x \<in> set (m_prev bb)
                                                 then removeAll l (m_next b) else m_next b),
                                     m_prev := (if x \<in> set (m_next bb)
                                                then removeAll l (m_prev b) else m_prev b)\<rparr>)
                    (map_of (m_blocks c) x)"
    using f(3) m1 m2 by (simp add: map_of_erase)
  ultimately show ?thesis using r by (intro exI [of _ ?c']) (simp add: map_of_erase)
qed

lemma cfg_ok_remove:
  assumes ok: "cfg_ok c" and r: "remove_cfg l c = Inr c'"
  shows "cfg_ok c'"
proof -
  from r have ne: "l \<noteq> m_entry c" and nx: "m_exit c \<noteq> Some l"
    by (auto simp: remove_cfg_def split: if_splits)
  from r ne nx obtain bb where bb: "map_of (m_blocks c) l = Some bb"
    by (cases "map_of (m_blocks c) l") (auto simp: remove_cfg_def get_node_def)
  from remove_cfg_ok [OF ok ne nx bb] r have k': "key_ok (m_blocks c')"
    and gone: "map_of (m_blocks c') l = None"
    and rest: "\<forall>x. x \<noteq> l \<longrightarrow>
                map_of (m_blocks c') x =
                  map_option (\<lambda>b. b\<lparr>m_next := (if x \<in> set (m_prev bb)
                                                 then removeAll l (m_next b) else m_next b),
                                     m_prev := (if x \<in> set (m_next bb)
                                                then removeAll l (m_prev b) else m_prev b)\<rparr>)
                    (map_of (m_blocks c) x)"
    by auto
  have nl: "next_of c l = m_next bb" and pl: "prev_of c l = m_prev bb"
    using bb by (simp_all add: next_of_def prev_of_def)
  have sym: "\<And>a b. b \<in> set (next_of c a) \<longleftrightarrow> a \<in> set (prev_of c b)"
    using ok by (simp add: cfg_ok_def)
  have n: "set (next_of c' x) = (if x = l then {} else set (next_of c x) - {l})" for x
  proof (cases "x = l")
    case True
    then show ?thesis using gone by (simp add: next_of_def)
  next
    case False
    have "x \<notin> set (m_prev bb) \<Longrightarrow> l \<notin> set (next_of c x)" using sym [of l x] pl by simp
    then show ?thesis using False rest [rule_format, OF False]
      by (cases "map_of (m_blocks c) x") (auto simp: next_of_def)
  qed
  have p: "set (prev_of c' x) = (if x = l then {} else set (prev_of c x) - {l})" for x
  proof (cases "x = l")
    case True
    then show ?thesis using gone by (simp add: prev_of_def)
  next
    case False
    have "x \<notin> set (m_next bb) \<Longrightarrow> l \<notin> set (prev_of c x)" using sym [of x l] nl by simp
    then show ?thesis using False rest [rule_format, OF False]
      by (cases "map_of (m_blocks c) x") (auto simp: prev_of_def)
  qed
  have "b \<in> set (next_of c' a) \<longleftrightarrow> a \<in> set (prev_of c' b)" for a b
    unfolding n p using sym [of b a] by auto
  with k' show ?thesis by (simp add: cfg_ok_def)
qed

lemma cfg_built_ok: "cfg_built c \<Longrightarrow> cfg_ok c"
proof (induction rule: cfg_built.induct)
  case (b_new entry exit)
  show ?case by (rule cfg_ok_new)
next
  case (b_set_exit c exit)
  then show ?case by (simp add: cfg_ok_set_exit)
next
  case (b_insert c l)
  then show ?case by (simp add: cfg_ok_insert)
next
  case (b_stmt c l st)
  then show ?case by (simp add: cfg_ok_stmt)
next
  case (b_edge_add c a b c')
  then show ?case by (simp add: cfg_ok_edge_add)
next
  case (b_edge_sub c a b)
  then show ?case by (simp add: cfg_ok_edge_sub)
next
  case (b_remove c l c')
  then show ?case by (simp add: cfg_ok_remove)
qed

lemma chain_cfg_built: "cfg_built chain_cfg"
proof -
  let ?c5 = "add_stmt ''c'' 3 (add_stmt ''b'' 2 (add_stmt ''a'' 1
               (insert_cfg ''c'' (insert_cfg ''b'' (cfg_new ''a'' (Some ''c''))))))
             :: (string, nat) cfg_t"
  let ?c6 = "\<lparr>m_entry = ''a'', m_exit = Some ''c'',
      m_blocks =
        [(''c'', \<lparr>m_bb_id = ''c'', m_ts = [3], m_prev = [], m_next = []\<rparr>),
         (''b'', \<lparr>m_bb_id = ''b'', m_ts = [2], m_prev = [''a''], m_next = []\<rparr>),
         (''a'', \<lparr>m_bb_id = ''a'', m_ts = [1], m_prev = [], m_next = [''b'']\<rparr>)]\<rparr>
        :: (string, nat) cfg_t"
  have b5: "cfg_built ?c5" by (intro b_stmt b_insert b_new)
  have e1: "edge_add ''a'' ''b'' ?c5 = Inr ?c6"
    by (simp add: edge_add_def add_stmt_def insert_cfg_def cfg_new_def create_def upd_block_def
        insert_adjacent_def)
  have e2: "edge_add ''b'' ''c'' ?c6 = Inr chain_cfg"
    by (simp add: edge_add_def chain_cfg_def upd_block_def insert_adjacent_def)
  from b_edge_add [OF b_edge_add [OF b5 e1] e2] show ?thesis .
qed

text \<open>
  C7, as stated, fails: for a label that is neither the entry nor the exit and has no
  block, \<^verbatim>\<open>get_node\<close> raises its own error and nothing is removed.
\<close>

theorem remove_missing_block_counterexample:
  "cfg_built chain_cfg \<and> ''zz'' \<noteq> m_entry chain_cfg \<and> m_exit chain_cfg \<noteq> Some ''zz''
     \<and> remove_cfg ''zz'' chain_cfg = Inl (BlockNotFound, chain_cfg)"
proof -
  have "''zz'' \<noteq> m_entry chain_cfg" "m_exit chain_cfg \<noteq> Some ''zz''"
    "remove_cfg ''zz'' chain_cfg = Inl (BlockNotFound, chain_cfg)"
    by (simp_all add: remove_cfg_def get_node_def chain_cfg_def)
  with chain_cfg_built show ?thesis by simp
qed

text \<open>
  C7, amended. \<^verbatim>\<open>remove(l)\<close> fails with the CFG unchanged when \<open>l\<close> is the entry, when
  it is the declared exit, and when no block is stored under \<open>l\<close>. For any other label
  of a CFG built through the interface it succeeds: entry and exit stay, the block \<open>l\<close>
  and only it is deleted, a predecessor of \<open>l\<close> loses \<open>l\<close> from its successor list, a
  successor of \<open>l\<close> loses \<open>l\<close> from its predecessor list, and nothing else of any other
  block changes (statements, label, other neighbours).
\<close>

theorem remove_cfg_spec:
  "(l = m_entry c \<longrightarrow> remove_cfg l c = Inl (CannotRemoveEntry, c))
     \<and> (l \<noteq> m_entry c \<and> m_exit c = Some l \<longrightarrow> remove_cfg l c = Inl (CannotRemoveExit, c))
     \<and> (l \<noteq> m_entry c \<and> m_exit c \<noteq> Some l \<and> map_of (m_blocks c) l = None \<longrightarrow>
          remove_cfg l c = Inl (BlockNotFound, c))
     \<and> (cfg_built c \<and> l \<noteq> m_entry c \<and> m_exit c \<noteq> Some l \<and> map_of (m_blocks c) l = Some bb \<longrightarrow>
          (\<exists>c'. remove_cfg l c = Inr c' \<and> m_entry c' = m_entry c \<and> m_exit c' = m_exit c
             \<and> labels c' = removeAll l (labels c)
             \<and> map_of (m_blocks c') l = None
             \<and> (\<forall>x b. x \<noteq> l \<longrightarrow> map_of (m_blocks c) x = Some b \<longrightarrow>
                   map_of (m_blocks c') x =
                     Some (b\<lparr>m_next := (if x \<in> set (m_prev bb)
                                         then removeAll l (m_next b) else m_next b),
                             m_prev := (if x \<in> set (m_next bb)
                                        then removeAll l (m_prev b) else m_prev b)\<rparr>))))"
proof -
  have c1: "l = m_entry c \<longrightarrow> remove_cfg l c = Inl (CannotRemoveEntry, c)"
    by (simp add: remove_cfg_def)
  have c2: "l \<noteq> m_entry c \<and> m_exit c = Some l \<longrightarrow> remove_cfg l c = Inl (CannotRemoveExit, c)"
    by (simp add: remove_cfg_def)
  have c3: "l \<noteq> m_entry c \<and> m_exit c \<noteq> Some l \<and> map_of (m_blocks c) l = None \<longrightarrow>
          remove_cfg l c = Inl (BlockNotFound, c)"
    by (simp add: remove_cfg_def get_node_def)
  have c4: "cfg_built c \<and> l \<noteq> m_entry c \<and> m_exit c \<noteq> Some l \<and> map_of (m_blocks c) l = Some bb \<longrightarrow>
          (\<exists>c'. remove_cfg l c = Inr c' \<and> m_entry c' = m_entry c \<and> m_exit c' = m_exit c
             \<and> labels c' = removeAll l (labels c)
             \<and> map_of (m_blocks c') l = None
             \<and> (\<forall>x b. x \<noteq> l \<longrightarrow> map_of (m_blocks c) x = Some b \<longrightarrow>
                   map_of (m_blocks c') x =
                     Some (b\<lparr>m_next := (if x \<in> set (m_prev bb)
                                         then removeAll l (m_next b) else m_next b),
                             m_prev := (if x \<in> set (m_next bb)
                                        then removeAll l (m_prev b) else m_prev b)\<rparr>)))"
  proof (intro impI, elim conjE)
    assume b: "cfg_built c"
      and h: "l \<noteq> m_entry c" "m_exit c \<noteq> Some l" "map_of (m_blocks c) l = Some bb"
    from remove_cfg_ok [OF cfg_built_ok [OF b] h] obtain c' where c':
      "remove_cfg l c = Inr c'" "m_entry c' = m_entry c" "m_exit c' = m_exit c"
      "labels c' = removeAll l (labels c)" "map_of (m_blocks c') l = None"
      "\<forall>x. x \<noteq> l \<longrightarrow>
                map_of (m_blocks c') x =
                  map_option (\<lambda>b. b\<lparr>m_next := (if x \<in> set (m_prev bb)
                                                 then removeAll l (m_next b) else m_next b),
                                     m_prev := (if x \<in> set (m_next bb)
                                                then removeAll l (m_prev b) else m_prev b)\<rparr>)
                    (map_of (m_blocks c) x)"
      by auto
    show "\<exists>c'. remove_cfg l c = Inr c' \<and> m_entry c' = m_entry c \<and> m_exit c' = m_exit c
             \<and> labels c' = removeAll l (labels c)
             \<and> map_of (m_blocks c') l = None
             \<and> (\<forall>x b. x \<noteq> l \<longrightarrow> map_of (m_blocks c) x = Some b \<longrightarrow>
                   map_of (m_blocks c') x =
                     Some (b\<lparr>m_next := (if x \<in> set (m_prev bb)
                                         then removeAll l (m_next b) else m_next b),
                             m_prev := (if x \<in> set (m_next bb)
                                        then removeAll l (m_prev b) else m_prev b)\<rparr>))"
      using c' by (intro exI [of _ c']) simp
  qed
  from c1 c2 c3 c4 show ?thesis by (intro conjI)
qed

theorem remove_cfg_spec_witness:
  "cfg_built chain_cfg
     \<and> remove_cfg ''a'' chain_cfg = Inl (CannotRemoveEntry, chain_cfg)
     \<and> remove_cfg ''c'' chain_cfg = Inl (CannotRemoveExit, chain_cfg)
     \<and> remove_cfg ''zz'' chain_cfg = Inl (BlockNotFound, chain_cfg)
     \<and> (\<exists>c'. remove_cfg ''b'' chain_cfg = Inr c' \<and> labels c' = [''c'', ''a'']
           \<and> map_of (m_blocks c') ''b'' = None
           \<and> map_of (m_blocks c') ''a''
               = Some \<lparr>m_bb_id = ''a'', m_ts = [1], m_prev = [], m_next = []\<rparr>
           \<and> map_of (m_blocks c') ''c''
               = Some \<lparr>m_bb_id = ''c'', m_ts = [3], m_prev = [], m_next = []\<rparr>)"
proof -
  let ?bb = "\<lparr>m_bb_id = ''b'', m_ts = [2::nat], m_prev = [''a''], m_next = [''c'']\<rparr>"
  have e: "m_entry chain_cfg = ''a''" "m_exit chain_cfg = Some ''c''"
    "map_of (m_blocks chain_cfg) ''b'' = Some ?bb"
    "map_of (m_blocks chain_cfg) ''a''
       = Some \<lparr>m_bb_id = ''a'', m_ts = [1], m_prev = [], m_next = [''b'']\<rparr>"
    "map_of (m_blocks chain_cfg) ''c''
       = Some \<lparr>m_bb_id = ''c'', m_ts = [3], m_prev = [''b''], m_next = []\<rparr>"
    "labels chain_cfg = [''c'', ''b'', ''a'']"
    "map_of (m_blocks chain_cfg) ''zz'' = None"
    by (simp_all add: chain_cfg_def labels_def)
  from remove_cfg_spec [of "''a''" chain_cfg ?bb] e
  have w1: "remove_cfg ''a'' chain_cfg = Inl (CannotRemoveEntry, chain_cfg)" by simp
  from remove_cfg_spec [of "''c''" chain_cfg ?bb] e
  have w2: "remove_cfg ''c'' chain_cfg = Inl (CannotRemoveExit, chain_cfg)" by simp
  from remove_cfg_spec [of "''zz''" chain_cfg ?bb] e
  have w0: "remove_cfg ''zz'' chain_cfg = Inl (BlockNotFound, chain_cfg)" by simp
  from remove_cfg_spec [of "''b''" chain_cfg ?bb] e chain_cfg_built
  obtain c' where c': "remove_cfg ''b'' chain_cfg = Inr c'" "labels c' = [''c'', ''a'']"
    "map_of (m_blocks c') ''b'' = None"
    "\<forall>x b. x \<noteq> ''b'' \<longrightarrow> map_of (m_blocks chain_cfg) x = Some b \<longrightarrow>
        map_of (m_blocks c') x =
          Some (b\<lparr>m_next := (if x \<in> set (m_prev ?bb) then removeAll ''b'' (m_next b) else m_next b),
                  m_prev := (if x \<in> set (m_next ?bb) then removeAll ''b'' (m_prev b) else m_prev b)\<rparr>)"
    by auto
  from c'(4) [rule_format, of "''a''", OF _ e(4)] c'(4) [rule_format, of "''c''", OF _ e(5)]
  have "map_of (m_blocks c') ''a'' = Some \<lparr>m_bb_id = ''a'', m_ts = [1], m_prev = [], m_next = []\<rparr>"
    "map_of (m_blocks c') ''c'' = Some \<lparr>m_bb_id = ''c'', m_ts = [3], m_prev = [], m_next = []\<rparr>"
    by simp_all
  with c' have w3: "\<exists>c'. remove_cfg ''b'' chain_cfg = Inr c' \<and> labels c' = [''c'', ''a'']
           \<and> map_of (m_blocks c') ''b'' = None
           \<and> map_of (m_blocks c') ''a''
               = Some \<lparr>m_bb_id = ''a'', m_ts = [1], m_prev = [], m_next = []\<rparr>
           \<and> map_of (m_blocks c') ''c''
               = Some \<lparr>m_bb_id = ''c'', m_ts = [3], m_prev = [], m_next = []\<rparr>"
    by (intro exI [of _ c']) simp
  from chain_cfg_built w1 w2 w0 w3 show ?thesis by (intro conjI)
qed

end
